theory Spec2Isabelle
  imports Complex_Main "HOL-Library.Log_Nat" "HOL-Library.Word"
begin

section \<open>Python floats: IEEE 754 binary64 arithmetic\<close>

text \<open>
  \<^verbatim>\<open>rebuild_transparency.py\<close> computes with Python \<^verbatim>\<open>float\<close>s, that is IEEE 754
  binary64 numbers. A finite float is modelled by the rational number it denotes, and
  every arithmetic operation by the exact rational result followed by rounding to the
  nearest binary64 number, ties to even (\<open>fl\<close>). The sign of a zero is not modelled: it is
  invisible to \<^verbatim>\<open>int()\<close>, to comparisons and to the finite results computed from it here.

  \<open>ilog2 x\<close> is the binary exponent \<open>\<lfloor>log\<^sub>2 \<bar>x\<bar>\<rfloor>\<close> of a non-zero rational, computed from the
  bit lengths of numerator and denominator.
\<close>

datatype error = ZeroDivisionError | OverflowError | TypeError

definition ilog2 :: "rat \<Rightarrow> int" where
  "ilog2 x = (let (p, q) = quotient_of \<bar>x\<bar>; d = bitlen p - bitlen q
              in if 2 powi d \<le> \<bar>x\<bar> then d else d - 1)"

definition round_half_even :: "rat \<Rightarrow> int" where
  "round_half_even t = (let n = \<lfloor>t\<rfloor>; r = t - of_int n
      in if r < 1 / 2 then n else if 1 / 2 < r then n + 1
         else if even n then n else n + 1)"

text \<open>
  The spacing of binary64 numbers around \<open>x\<close>: 53 significant bits in the normal range,
  the fixed spacing \<open>2\<^sup>-\<^sup>1\<^sup>0\<^sup>7\<^sup>4\<close> in the subnormal range.
\<close>

definition ulp :: "rat \<Rightarrow> rat" where
  "ulp x = 2 powi (max (ilog2 x) (- 1022) - 52)"

definition fl :: "rat \<Rightarrow> rat" where
  "fl x = (if x = 0 then 0 else of_int (round_half_even (x / ulp x)) * ulp x)"

text \<open>
  A result that rounds to \<open>2\<^sup>1\<^sup>0\<^sup>2\<^sup>4\<close> or beyond overflows. Python's \<^verbatim>\<open>int / int\<close> and the
  conversion of an \<^verbatim>\<open>int\<close> operand to \<^verbatim>\<open>float\<close> raise \<^verbatim>\<open>OverflowError\<close> there. The float
  operations \<^verbatim>\<open>+ - * /\<close> return an infinity instead; in \<^verbatim>\<open>calculate_transparency\<close> an
  infinity can only flow through the remaining float operations into \<^verbatim>\<open>int()\<close>, which
  raises \<^verbatim>\<open>OverflowError\<close>, so the model raises it at the operation that overflows.
\<close>

definition round_double :: "rat \<Rightarrow> error + rat" where
  "round_double x = (let y = fl x in if 2 ^ 1024 \<le> \<bar>y\<bar> then Inl OverflowError else Inr y)"

definition rbind :: "error + 'a \<Rightarrow> ('a \<Rightarrow> error + 'b) \<Rightarrow> error + 'b" where
  "rbind m f = (case m of Inl e \<Rightarrow> Inl e | Inr x \<Rightarrow> f x)"

definition float_of_int :: "int \<Rightarrow> error + rat" where
  "float_of_int n = round_double (of_int n)"

definition int_truediv :: "int \<Rightarrow> int \<Rightarrow> error + rat" where
  "int_truediv a b =
     (if b = 0 then Inl ZeroDivisionError else round_double (of_int a / of_int b))"

definition float_add :: "rat \<Rightarrow> rat \<Rightarrow> error + rat" where
  "float_add x y = round_double (x + y)"

definition float_sub :: "rat \<Rightarrow> rat \<Rightarrow> error + rat" where
  "float_sub x y = round_double (x - y)"

definition float_mul :: "rat \<Rightarrow> rat \<Rightarrow> error + rat" where
  "float_mul x y = round_double (x * y)"

definition float_div :: "rat \<Rightarrow> rat \<Rightarrow> error + rat" where
  "float_div x y = (if y = 0 then Inl ZeroDivisionError else round_double (x / y))"

text \<open>\<^verbatim>\<open>int(x)\<close> on a finite float truncates toward zero.\<close>

definition int_of_float :: "rat \<Rightarrow> int" where
  "int_of_float x = (if 0 \<le> x then \<lfloor>x\<rfloor> else \<lceil>x\<rceil>)"

section \<open>The unblend function\<close>

text \<open>
  \<^verbatim>\<open>EPSILON_HALF = 0.5 - sys.float_info.epsilon\<close>, where \<^verbatim>\<open>sys.float_info.epsilon\<close> is
  \<open>2\<^sup>-\<^sup>5\<^sup>2\<close> for binary64.
\<close>

definition float_info_epsilon :: rat where
  "float_info_epsilon = 1 / 2 ^ 52"

definition EPSILON_HALF :: rat where
  "EPSILON_HALF = fl (1 / 2 - float_info_epsilon)"

text \<open>
  The source repeats one expression for the three channels,
  \<^verbatim>\<open>int((v - (1 - ratio) * 255) / (ratio) + EPSILON_HALF)\<close> with \<^verbatim>\<open>v\<close> one of \<^verbatim>\<open>r\<close>, \<^verbatim>\<open>g\<close>,
  \<^verbatim>\<open>b\<close>. \<open>recovered_value\<close> is its inner quotient, evaluated in the order Python evaluates
  it; the \<^verbatim>\<open>int\<close> operand \<^verbatim>\<open>v\<close> is converted to \<^verbatim>\<open>float\<close> for the subtraction, and the
  literals \<^verbatim>\<open>1\<close> and \<^verbatim>\<open>255\<close> are floats exactly. \<open>recover_channel\<close> is the whole expression.
\<close>

definition recovered_value :: "int \<Rightarrow> rat \<Rightarrow> error + rat" where
  "recovered_value v ratio =
     rbind (float_sub 1 ratio) (\<lambda>a.
     rbind (float_mul a 255) (\<lambda>b.
     rbind (float_of_int v) (\<lambda>fv.
     rbind (float_sub fv b) (\<lambda>d.
     float_div d ratio))))"

definition recover_channel :: "int \<Rightarrow> rat \<Rightarrow> error + int" where
  "recover_channel v ratio =
     rbind (recovered_value v ratio) (\<lambda>q.
     rbind (float_add q EPSILON_HALF) (\<lambda>s.
     Inr (int_of_float s)))"

definition calculate_transparency :: "int \<Rightarrow> int \<Rightarrow> int \<Rightarrow> error + (int \<times> int \<times> int \<times> int)" where
  "calculate_transparency r g b =
     (let alpha = 255 - min r (min g b) in
      if alpha = 0 then Inr (0, 0, 0, 0)
      else
        rbind (int_truediv alpha 255) (\<lambda>ratio.
        rbind (recover_channel r ratio) (\<lambda>new_r.
        rbind (recover_channel g ratio) (\<lambda>new_g.
        rbind (recover_channel b ratio) (\<lambda>new_b.
        Inr (new_r, new_g, new_b, alpha))))))"

text \<open>
  The same quotient \<^verbatim>\<open>(v - (1 - ratio) * 255) / (ratio)\<close> with \<^verbatim>\<open>ratio = alpha / 255\<close>,
  evaluated in exact rational arithmetic instead of binary64: the value that the float
  computation approximates.
\<close>

definition exact_recovered :: "int \<Rightarrow> int \<Rightarrow> rat" where
  "exact_recovered v alpha =
     (of_int v - (1 - of_int alpha / 255) * 255) / (of_int alpha / 255)"

text \<open>
  \<^verbatim>\<open>calculate_transparency\<close> with every float operation replaced by the exact rational one:
  the same branches, the same expressions, no rounding before \<^verbatim>\<open>int()\<close>.
\<close>

definition calculate_transparency_exact :: "int \<Rightarrow> int \<Rightarrow> int \<Rightarrow> error + (int \<times> int \<times> int \<times> int)" where
  "calculate_transparency_exact r g b =
     (let alpha = 255 - min r (min g b) in
      if alpha = 0 then Inr (0, 0, 0, 0)
      else if (of_int alpha / 255 :: rat) = 0 then Inl ZeroDivisionError
      else Inr (int_of_float (exact_recovered r alpha + EPSILON_HALF),
                int_of_float (exact_recovered g alpha + EPSILON_HALF),
                int_of_float (exact_recovered b alpha + EPSILON_HALF), alpha))"

text \<open>
  Rounding to the nearest integer with ties going up, a tie being a value exactly halfway
  between two integers, and alpha compositing of a channel value \<open>c\<close> with opacity \<open>a / 255\<close>
  over white (255), \<open>c \<cdot> A + 255 \<cdot> (1 - A)\<close>. None of them occurs in the source; they are the
  notions the specification states its rounding and re-compositing properties with.
\<close>

definition round_half_up :: "rat \<Rightarrow> int" where
  "round_half_up x = \<lfloor>x + 1 / 2\<rfloor>"

definition is_tie :: "rat \<Rightarrow> bool" where
  "is_tie x \<longleftrightarrow> x = of_int \<lfloor>x\<rfloor> + 1 / 2"

definition composite_over_white :: "int \<Rightarrow> int \<Rightarrow> rat" where
  "composite_over_white c a = of_int c * (of_int a / 255) + 255 * (1 - of_int a / 255)"

section \<open>The image pipeline\<close>

text \<open>
  \<^verbatim>\<open>convert_image_to_transparent\<close> works on a Pillow image. Of an image the function reads
  \<^verbatim>\<open>mode\<close>, \<^verbatim>\<open>info\<close> (a dict), \<^verbatim>\<open>size\<close> (width and height, \<open>size_wh\<close> here) and, through
  \<^verbatim>\<open>getdata()\<close>, the pixels in row-major order. Decoding (\<^verbatim>\<open>Image.open\<close>) and encoding (\<^verbatim>\<open>save\<close>) are Pillow's: the
  model starts from the decoded image and ends with the image handed to \<^verbatim>\<open>save\<close>. The pixels of
  an image in mode RGB are triples of bytes.
\<close>

type_synonym rgb = "8 word \<times> 8 word \<times> 8 word"
type_synonym rgba = "int \<times> int \<times> int \<times> int"

record ('p, 'i) image =
  mode :: string
  info :: "string \<rightharpoonup> 'i"
  size_wh :: "nat \<times> nat"
  getdata :: "'p list"

definition transparency_warning :: string where
  "transparency_warning =
     ''Warning: Transparency data found in the image will not be used in the conversion.''"

text \<open>
  \<^verbatim>\<open>list(calculate_transparency(*rgb) for rgb in rgb_img.getdata())\<close>: the pixels are
  processed in order, and the first exception ends the comprehension. \<^verbatim>\<open>*rgb\<close> unpacks a
  pixel of the RGB image into the three arguments; each is a byte, passed as a Python
  \<^verbatim>\<open>int\<close>.
\<close>

fun collect :: "('a \<Rightarrow> error + 'b) \<Rightarrow> 'a list \<Rightarrow> error + 'b list" where
  "collect f [] = Inr []"
| "collect f (x # xs) = rbind (f x) (\<lambda>y. rbind (collect f xs) (\<lambda>ys. Inr (y # ys)))"

text \<open>
  \<^verbatim>\<open>Image.new("RGBA", size)\<close> is an image of that size filled with \<open>(0, 0, 0, 0)\<close>.
  \<^verbatim>\<open>putdata\<close> copies a sequence into the image from the upper left corner on, row by row,
  and raises \<^verbatim>\<open>TypeError\<close> for a sequence longer than the image. An RGBA image stores
  bytes: on the way in, Pillow clips every component of a pixel to \<open>[0, 255]\<close>.
\<close>

definition clip8 :: "int \<Rightarrow> int" where
  "clip8 x = (if x \<le> 0 then 0 else if x < 256 then x else 255)"

definition clip_pixel :: "rgba \<Rightarrow> rgba" where
  "clip_pixel p = (case p of (r, g, b, a) \<Rightarrow> (clip8 r, clip8 g, clip8 b, clip8 a))"

definition new_image :: "string \<Rightarrow> nat \<times> nat \<Rightarrow> (rgba, 'i) image" where
  "new_image m wh =
     \<lparr>mode = m, info = Map.empty, size_wh = wh,
      getdata = replicate (fst wh * snd wh) (0, 0, 0, 0)\<rparr>"

definition putdata :: "(rgba, 'i) image \<Rightarrow> rgba list \<Rightarrow> error + (rgba, 'i) image" where
  "putdata im pixels =
     (if length (getdata im) < length pixels then Inl TypeError
      else Inr (im\<lparr>getdata := map clip_pixel pixels @ drop (length pixels) (getdata im)\<rparr>))"

text \<open>An image holds one pixel for every position of its grid.\<close>

definition valid_image :: "('p, 'i) image \<Rightarrow> bool" where
  "valid_image im \<longleftrightarrow> length (getdata im) = fst (size_wh im) * snd (size_wh im)"

text \<open>
  The result is the list of lines printed and either the exception raised or the image
  saved. \<open>convert\<close> stands for Pillow's \<^verbatim>\<open>Image.convert\<close>.
\<close>

definition convert_image_to_transparent ::
  "(('p, 'i) image \<Rightarrow> string \<Rightarrow> (rgb, 'i) image) \<Rightarrow> ('p, 'i) image
     \<Rightarrow> string list \<times> (error + (rgba, 'i) image)" where
  "convert_image_to_transparent convert img =
     (let printed =
            (if mode img \<in> {''RGBA'', ''LA''}
                \<or> (mode img = ''P'' \<and> info img ''transparency'' \<noteq> None)
             then [transparency_warning] else []);
          rgb_img = convert img ''RGB''
      in (printed,
          rbind (collect (\<lambda>(r, g, b). calculate_transparency (uint r) (uint g) (uint b))
                   (getdata rgb_img)) (\<lambda>pixels.
          putdata (new_image ''RGBA'' (size_wh img)) pixels)))"

section \<open>Properties of binary64 rounding\<close>

subsection \<open>The binary exponent\<close>

lemma bitlen_powi:
  assumes "0 < n"
  shows "2 powi (bitlen n - 1) \<le> (of_int n :: rat)" and "(of_int n :: rat) < 2 powi (bitlen n)"
proof -
  from bitlen_bounds [OF assms]
  have lo: "2 ^ nat (bitlen n - 1) \<le> n" and hi: "n < 2 ^ nat (bitlen n)" by simp_all
  have b1: "1 \<le> bitlen n" using assms bitlen_eq_zero_iff [of n] bitlen_nonneg [of n] by linarith
  have "(2 :: rat) powi (bitlen n - 1) = 2 ^ nat (bitlen n - 1)"
    using b1 by (simp add: power_int_def)
  also have "\<dots> = of_int (2 ^ nat (bitlen n - 1))" by simp
  also have "\<dots> \<le> of_int n" using lo by (simp only: of_int_le_iff)
  finally show "2 powi (bitlen n - 1) \<le> (of_int n :: rat)" .
  have "(of_int n :: rat) < of_int (2 ^ nat (bitlen n))" using hi by (simp only: of_int_less_iff)
  also have "\<dots> = 2 ^ nat (bitlen n)" by simp
  also have "\<dots> = 2 powi (bitlen n)" using b1 by (simp add: power_int_def)
  finally show "(of_int n :: rat) < 2 powi (bitlen n)" .
qed

lemma ilog2_bounds:
  assumes "x \<noteq> 0"
  shows "2 powi (ilog2 x) \<le> \<bar>x\<bar>" and "\<bar>x\<bar> < 2 powi (ilog2 x + 1)"
proof -
  obtain p q where pq: "quotient_of \<bar>x\<bar> = (p, q)" by (cases "quotient_of \<bar>x\<bar>")
  have q: "0 < q" using pq by (rule quotient_of_denom_pos)
  have x: "\<bar>x\<bar> = of_int p / of_int q" using pq by (rule quotient_of_div)
  have p: "0 < p"
  proof (rule ccontr)
    assume "\<not> 0 < p"
    then have "(of_int p :: rat) \<le> 0" by simp
    then have "(of_int p :: rat) / of_int q \<le> 0" using q by (simp add: divide_le_0_iff)
    with x assms show False by simp
  qed
  define d where "d = bitlen p - bitlen q"
  have il: "ilog2 x = (if 2 powi d \<le> \<bar>x\<bar> then d else d - 1)"
    by (simp add: ilog2_def pq d_def Let_def)
  have Q: "(0::rat) < of_int q" using q by simp
  have lo: "(2::rat) powi (d - 1) \<le> \<bar>x\<bar>"
  proof -
    have "(2::rat) powi (d - 1) * of_int q \<le> 2 powi (d - 1) * 2 powi (bitlen q)"
      using bitlen_powi(2) [OF q] by (intro mult_left_mono) simp_all
    also have "\<dots> = 2 powi (bitlen p - 1)"
      by (simp add: d_def power_int_add [symmetric])
    also have "\<dots> \<le> of_int p" by (rule bitlen_powi(1) [OF p])
    finally show ?thesis using Q by (simp add: x pos_le_divide_eq)
  qed
  have hi: "\<bar>x\<bar> < (2::rat) powi (d + 1)"
  proof -
    have "(of_int p :: rat) < 2 powi (bitlen p)" by (rule bitlen_powi(2) [OF p])
    also have "\<dots> = 2 powi (d + 1) * 2 powi (bitlen q - 1)"
      by (simp add: d_def power_int_add [symmetric])
    also have "\<dots> \<le> 2 powi (d + 1) * of_int q"
      using bitlen_powi(1) [OF q] by (intro mult_left_mono) simp_all
    finally show ?thesis using Q by (simp add: x pos_divide_less_eq)
  qed
  show "2 powi (ilog2 x) \<le> \<bar>x\<bar>" using lo by (simp add: il)
  show "\<bar>x\<bar> < 2 powi (ilog2 x + 1)" using hi by (auto simp add: il not_le)
qed

lemma powi2_mono: "a \<le> b \<Longrightarrow> (2::rat) powi a \<le> 2 powi b"
  by (rule power_int_increasing) simp_all

lemma powi2_less_imp: "(2::rat) powi a < 2 powi b \<Longrightarrow> a < b"
  using powi2_mono [of b a] by (cases "a < b") auto

lemma ilog2_unique:
  assumes "2 powi e \<le> \<bar>x\<bar>" and "\<bar>x\<bar> < 2 powi (e + 1)"
  shows "ilog2 x = e"
proof -
  have "0 < (2::rat) powi e" by simp
  with assms(1) have "0 < \<bar>x\<bar>" by linarith
  then have nz: "x \<noteq> 0" by simp
  from ilog2_bounds [OF nz] assms
  have "(2::rat) powi (ilog2 x) < 2 powi (e + 1)" and "(2::rat) powi e < 2 powi (ilog2 x + 1)"
    by linarith+
  then have "ilog2 x < e + 1" and "e < ilog2 x + 1" by (auto dest: powi2_less_imp)
  then show ?thesis by linarith
qed

subsection \<open>Rounding to the nearest integer, ties to even\<close>

lemma rhe_cases:
  "round_half_even t = \<lfloor>t\<rfloor> \<or> round_half_even t = \<lfloor>t\<rfloor> + 1"
  by (simp add: round_half_even_def Let_def)

lemma rhe_error: "\<bar>of_int (round_half_even t) - t\<bar> \<le> 1 / 2"
proof -
  have "of_int \<lfloor>t\<rfloor> \<le> t" "t < of_int \<lfloor>t\<rfloor> + 1" by linarith+
  then show ?thesis
    by (auto simp add: round_half_even_def Let_def)
qed

lemma rhe_near:
  assumes "\<bar>t - of_int n\<bar> < 1 / 2"
  shows "round_half_even t = n"
proof -
  have "\<bar>(of_int (round_half_even t) :: rat) - of_int n\<bar> < 1"
    using rhe_error [of t] assms by linarith
  then have "\<bar>(of_int (round_half_even t - n) :: rat)\<bar> < 1" by simp
  then have "\<bar>round_half_even t - n\<bar> < 1"
    by (metis of_int_abs of_int_less_1_iff)
  then show ?thesis by linarith
qed

lemma rhe_of_int: "round_half_even (of_int n) = n"
  by (rule rhe_near) simp

lemma rhe_le:
  assumes "t \<le> of_int n"
  shows "round_half_even t \<le> n"
proof (cases "t = of_int n")
  case True
  then show ?thesis by (simp add: rhe_of_int)
next
  case False
  with assms have "t < of_int n" by simp
  then have "\<lfloor>t\<rfloor> < n" by (simp add: floor_less_iff)
  with rhe_cases [of t] show ?thesis by linarith
qed

lemma rhe_ge:
  assumes "of_int n \<le> t"
  shows "n \<le> round_half_even t"
proof -
  have "n \<le> \<lfloor>t\<rfloor>" using assms by (simp add: le_floor_iff)
  with rhe_cases [of t] show ?thesis by linarith
qed

lemma rhe_tie_even:
  assumes "t = of_int n - 1 / 2" and "even n"
  shows "round_half_even t = n"
proof -
  have f: "\<lfloor>t\<rfloor> = n - 1" unfolding assms(1) by (rule floor_unique) simp_all
  have "odd (n - 1)" using assms(2) by simp
  then show ?thesis
    by (simp add: round_half_even_def Let_def f) (simp add: assms(1))
qed

subsection \<open>Rounding to the nearest binary64 number\<close>

lemma ulp_pos: "0 < ulp x"
  by (simp add: ulp_def)

lemma fl_grid: "fl x = of_int (round_half_even (x / ulp x)) * ulp x"
  by (simp add: fl_def rhe_of_int [of 0, simplified])

lemma fl_error: "\<bar>fl x - x\<bar> \<le> ulp x / 2"
proof -
  have u: "0 < ulp x" by (rule ulp_pos)
  have "fl x - x = (of_int (round_half_even (x / ulp x)) - x / ulp x) * ulp x"
    using u by (simp add: fl_grid left_diff_distrib)
  then have "\<bar>fl x - x\<bar> = \<bar>of_int (round_half_even (x / ulp x)) - x / ulp x\<bar> * ulp x"
    using u by (simp add: abs_mult)
  also have "\<dots> \<le> (1 / 2) * ulp x"
    using u rhe_error [of "x / ulp x"] by (intro mult_right_mono) simp_all
  finally show ?thesis by simp
qed

lemma fl_le_grid:
  assumes "x \<le> of_int n * ulp x"
  shows "fl x \<le> of_int n * ulp x"
proof -
  have u: "0 < ulp x" by (rule ulp_pos)
  have "x / ulp x \<le> of_int n" using assms u by (simp add: pos_divide_le_eq)
  then have "round_half_even (x / ulp x) \<le> n" by (rule rhe_le)
  then have "(of_int (round_half_even (x / ulp x)) :: rat) \<le> of_int n" by simp
  then show ?thesis unfolding fl_grid using u by (intro mult_right_mono) simp_all
qed

lemma fl_ge_grid:
  assumes "of_int n * ulp x \<le> x"
  shows "of_int n * ulp x \<le> fl x"
proof -
  have u: "0 < ulp x" by (rule ulp_pos)
  have "of_int n \<le> x / ulp x" using assms u by (simp add: pos_le_divide_eq)
  then have "n \<le> round_half_even (x / ulp x)" by (rule rhe_ge)
  then have "(of_int n :: rat) \<le> of_int (round_half_even (x / ulp x))" by simp
  then show ?thesis unfolding fl_grid using u by (intro mult_right_mono) simp_all
qed

lemma fl_fix:
  assumes "x = of_int n * ulp x"
  shows "fl x = x"
  using fl_le_grid [of x n] fl_ge_grid [of n x] assms by simp

lemma ulp_eq:
  assumes "2 powi e \<le> \<bar>x\<bar>" and "\<bar>x\<bar> < 2 powi (e + 1)" and "- 1022 \<le> e"
  shows "ulp x = 2 powi (e - 52)"
  using ilog2_unique [OF assms(1,2)] assms(3) by (simp add: ulp_def)

lemma ulp_le:
  assumes "x \<noteq> 0" and "\<bar>x\<bar> < 2 powi (k + 1)" and "- 1022 \<le> k"
  shows "ulp x \<le> 2 powi (k - 52)"
proof -
  have "(2::rat) powi (ilog2 x) < 2 powi (k + 1)"
    using ilog2_bounds(1) [OF assms(1)] assms(2) by linarith
  then have "ilog2 x \<le> k" using powi2_less_imp by fastforce
  then show ?thesis unfolding ulp_def using assms(3) by (intro powi2_mono) simp
qed

lemma fl_error_small:
  assumes "\<bar>x\<bar> < 2 ^ 18"
  shows "\<bar>fl x - x\<bar> \<le> 1 / 2 ^ 36"
proof (cases "x = 0")
  case True
  then show ?thesis by (simp add: fl_def)
next
  case False
  have "\<bar>x\<bar> < 2 powi (17 + 1)" using assms by simp
  from ulp_le [OF False this] have "ulp x \<le> 2 powi (17 - 52)" by simp
  also have "\<dots> = 1 / 2 ^ 35" by (simp add: power_int_def divide_simps)
  finally show ?thesis using fl_error [of x] by simp
qed

subsection \<open>Operands below \<open>2\<^sup>1\<^sup>8\<close>\<close>

lemma round_double_small:
  assumes "\<bar>x\<bar> < 2 ^ 18"
  shows "round_double x = Inr (fl x)"
proof -
  have "\<bar>fl x\<bar> \<le> \<bar>fl x - x\<bar> + \<bar>x\<bar>" by linarith
  also have "\<dots> < 1 + 2 ^ 18" using fl_error_small [OF assms] assms by simp
  also have "\<dots> \<le> (2::rat) ^ 19" by simp
  also have "\<dots> \<le> 2 ^ 1024" by (rule power_increasing) simp_all
  finally show ?thesis by (simp add: round_double_def Let_def)
qed

lemma fl_error_u:
  assumes "\<bar>x\<bar> < 262144"
  shows "\<bar>fl x - x\<bar> \<le> 1 / 68719476736"
  using fl_error_small [of x] assms by simp

lemma round_double_u:
  assumes "\<bar>x\<bar> < 262144"
  shows "round_double x = Inr (fl x)"
  using round_double_small [of x] assms by simp

subsection \<open>Evaluating a rounding from its exponent and significand\<close>

lemma fl_eval:
  assumes "2 powi e \<le> \<bar>x\<bar>" and "\<bar>x\<bar> < 2 powi (e + 1)" and "- 1022 \<le> e"
    and "\<bar>x / 2 powi (e - 52) - of_int n\<bar> < 1 / 2"
  shows "fl x = of_int n * 2 powi (e - 52)"
  unfolding fl_grid ulp_eq [OF assms(1-3)] using rhe_near [OF assms(4)] by simp

lemma EPSILON_HALF_val: "EPSILON_HALF = 1 / 2 - 1 / 2 ^ 52"
proof -
  have "fl (1 / 2 - 1 / 2 ^ 52) = of_int 9007199254740988 * 2 powi (- 2 - 52)"
    by (rule fl_eval) (simp_all add: power_int_minus)
  also have "\<dots> = 1 / 2 - 1 / 2 ^ 52" by (simp add: power_int_minus)
  finally show ?thesis by (simp add: EPSILON_HALF_def float_info_epsilon_def)
qed

subsection \<open>Integers and half-integers are multiples of the spacing\<close>

lemma ilog2_range:
  assumes "2 ^ a \<le> \<bar>x\<bar>" and "\<bar>x\<bar> < 2 ^ b"
  shows "int a \<le> ilog2 x" and "ilog2 x < int b"
proof -
  have "(0::rat) < 2 ^ a" by simp
  with assms(1) have "0 < \<bar>x\<bar>" by linarith
  then have nz: "x \<noteq> 0" by simp
  have "(2::rat) powi (int a) < 2 powi (ilog2 x + 1)"
    using ilog2_bounds(2) [OF nz] assms(1) by simp
  then show "int a \<le> ilog2 x" using powi2_less_imp by fastforce
  have "(2::rat) powi (ilog2 x) < 2 powi (int b)"
    using ilog2_bounds(1) [OF nz] assms(2) by simp
  then show "ilog2 x < int b" by (rule powi2_less_imp)
qed

lemma powi2_nat: "0 \<le> k \<Longrightarrow> (2::rat) powi k = of_int (2 ^ nat k)"
  by (simp add: power_int_def)

lemma half_on_grid:
  assumes "1 \<le> \<bar>x\<bar>" and "\<bar>x\<bar> < 2 ^ 52"
  obtains N where "0 < N" and "of_int N * ulp x = 1 / 2"
proof -
  from ilog2_range [of 0 x 52] assms have e: "0 \<le> ilog2 x" "ilog2 x < 52" by simp_all
  have u: "ulp x = 2 powi (ilog2 x - 52)" using e by (simp add: ulp_def)
  have "of_int (2 ^ nat (51 - ilog2 x)) * ulp x = 2 powi (51 - ilog2 x) * 2 powi (ilog2 x - 52)"
    unfolding u using e by (simp add: powi2_nat)
  also have "\<dots> = 2 powi (- 1)" by (simp add: power_int_add [symmetric])
  also have "\<dots> = 1 / 2" by (simp add: power_int_minus)
  finally have "of_int (2 ^ nat (51 - ilog2 x)) * ulp x = 1 / 2" .
  moreover have "(0::int) < 2 ^ nat (51 - ilog2 x)" by simp
  ultimately show ?thesis using that by blast
qed

lemma ulp_ge:
  assumes "1 \<le> \<bar>x\<bar>"
  shows "1 / 2 ^ 52 \<le> ulp x"
proof -
  from assms have nz: "x \<noteq> 0" by auto
  have "(2::rat) powi 0 < 2 powi (ilog2 x + 1)" using ilog2_bounds(2) [OF nz] assms by simp
  then have "0 \<le> ilog2 x" using powi2_less_imp by fastforce
  then have "(2::rat) powi (- 52) \<le> ulp x" unfolding ulp_def by (intro powi2_mono) simp
  then show ?thesis by (simp add: power_int_minus)
qed

lemma fl_int_minus_eps:
  assumes "3 \<le> n" and "n \<le> 256"
  shows "fl (of_int n - 1 / 2 ^ 52) = of_int n"
proof -
  define y :: rat where "y = of_int n - 1 / 2 ^ 52"
  have n: "(3::rat) \<le> of_int n" "(of_int n :: rat) \<le> 256" using assms by simp_all
  have y: "2 ^ 1 \<le> \<bar>y\<bar>" "\<bar>y\<bar> < 2 ^ 9" using n by (simp_all add: y_def)
  define e where "e = ilog2 y"
  from ilog2_range [OF y] have e: "1 \<le> e" "e < 9" by (simp_all add: e_def)
  have u: "ulp y = 2 powi (e - 52)" using e by (simp add: ulp_def e_def)
  define P :: int where "P = 2 ^ nat (52 - e)"
  have P: "of_int P = (2::rat) powi (52 - e)" using e by (simp add: P_def powi2_nat)
  have Pu: "of_int P * ulp y = 1" unfolding P u by (simp add: power_int_add [symmetric])
  have "y / ulp y = y * of_int P" using Pu ulp_pos [of y] by (simp add: field_simps)
  also have "\<dots> = of_int (n * P) - 1 / 2 ^ 52 * of_int P"
    by (simp add: y_def algebra_simps)
  finally have q0: "y / ulp y = of_int (n * P) - 1 / 2 ^ 52 * of_int P" .
  have "(2::rat) powi (- e) = 2 powi (- 52 + (52 - e))" by simp
  also have "\<dots> = 2 powi (- 52) * 2 powi (52 - e)" by (rule power_int_add) simp
  finally have "(2::rat) powi (- e) = 1 / 2 ^ 52 * of_int P"
    unfolding P by (simp add: power_int_minus)
  with q0 have q: "y / ulp y = of_int (n * P) - 2 powi (- e)" by simp
  have "round_half_even (y / ulp y) = n * P"
  proof (cases "e = 1")
    case True
    then have "even P" by (simp add: P_def)
    then have "even (n * P)" by simp
    moreover have "y / ulp y = of_int (n * P) - 1 / 2" using q True by (simp add: power_int_minus)
    ultimately show ?thesis by (rule rhe_tie_even [rotated])
  next
    case False
    with e have "2 \<le> e" by simp
    then have "(2::rat) powi (- e) \<le> 2 powi (- 2)" by (intro powi2_mono) simp
    then have "(2::rat) powi (- e) \<le> 1 / 4" by (simp add: power_int_minus)
    moreover have "(0::rat) < 2 powi (- e)" by simp
    ultimately have "\<bar>y / ulp y - of_int (n * P)\<bar> < 1 / 2" unfolding q by linarith
    then show ?thesis by (rule rhe_near)
  qed
  then have "fl y = of_int (n * P) * ulp y" by (simp add: fl_grid)
  also have "\<dots> = of_int n * (of_int P * ulp y)" by simp
  finally show ?thesis unfolding Pu by (simp add: y_def)
qed

subsection \<open>Adding \<open>EPSILON_HALF\<close> and truncating, next to a half-integer\<close>

lemma int_of_float_floor:
  assumes "of_int k \<le> s" and "s < of_int k + 1" and "0 \<le> k"
  shows "int_of_float s = k"
proof -
  have "(0::rat) \<le> of_int k" using assms(3) by simp
  with assms(1) have "0 \<le> s" by linarith
  moreover have "\<lfloor>s\<rfloor> = k" using assms(1,2) by (intro floor_unique) simp_all
  ultimately show ?thesis by (simp add: int_of_float_def)
qed

lemma grid_mult:
  fixes u h :: rat
  assumes "of_int N * u = h"
  shows "of_int (a * N) * u = of_int a * h"
  unfolding assms [symmetric] by (simp add: mult.assoc)

lemma tie_round:
  fixes K :: int and xp :: rat
  assumes K: "1 \<le> K" "K \<le> 254"
    and xp: "\<bar>xp - (of_int K + 1 / 2)\<bar> \<le> 1 / 2 ^ 18"
    and sp: "K = 1 \<longrightarrow> fl xp \<noteq> 3 / 2"
  shows "int_of_float (fl (fl xp + EPSILON_HALF)) = \<lfloor>fl xp + 1 / 2\<rfloor>"
proof -
  define k :: rat where "k = of_int K"
  have k: "1 \<le> k" "k \<le> 254" using K by (simp_all add: k_def)
  have xp': "\<bar>xp - (k + 1 / 2)\<bar> \<le> 1 / 262144" using xp by (simp add: k_def)
  have xlo: "k + 1 / 2 - 1 / 262144 \<le> xp" and xhi: "xp \<le> k + 1 / 2 + 1 / 262144"
    using xp' by linarith+
  have xr3: "\<bar>xp\<bar> < 262144" using xlo xhi k by linarith
  have xr1: "1 \<le> \<bar>xp\<bar>" using xlo k by linarith
  have "\<bar>xp\<bar> < 4503599627370496" using xr3 by linarith
  then have xr2: "\<bar>xp\<bar> < 2 ^ 52" by simp
  note xr = xr1 xr2 xr3
  from half_on_grid [OF xr(1,2)] obtain N where N: "0 < N" "of_int N * ulp xp = 1 / 2" by blast
  define u where "u = ulp xp"
  have u0: "0 < u" unfolding u_def by (rule ulp_pos)
  have u52: "1 / 4503599627370496 \<le> u" using ulp_ge [OF xr(1)] by (simp add: u_def)
  have Nu: "of_int N * u = 1 / 2" using N(2) by (simp add: u_def)
  define Q where "Q = fl xp"
  define M where "M = round_half_even (xp / ulp xp)"
  have QM: "Q = of_int M * u" by (simp add: Q_def M_def u_def fl_grid)
  have "\<bar>Q - xp\<bar> \<le> 1 / 68719476736" unfolding Q_def by (rule fl_error_u [OF xr(3)])
  then have Qlo: "xp - 1 / 68719476736 \<le> Q" and Qhi: "Q \<le> xp + 1 / 68719476736"
    by linarith+
  have "of_int (2 * K * N) * u = of_int (2 * K) * (1 / 2)" by (rule grid_mult [OF Nu])
  also have "\<dots> = k" by (simp add: k_def)
  finally have gk: "of_int (2 * K * N) * u = k" .
  have "of_int ((2 * K + 1) * N) * u = of_int (2 * K + 1) * (1 / 2)" by (rule grid_mult [OF Nu])
  also have "\<dots> = k + 1 / 2" by (simp add: k_def)
  finally have gh: "of_int ((2 * K + 1) * N) * u = k + 1 / 2" .
  have "of_int ((2 * K + 2) * N) * u = of_int (2 * K + 2) * (1 / 2)" by (rule grid_mult [OF Nu])
  also have "\<dots> = k + 1" by (simp add: k_def)
  finally have g2: "of_int ((2 * K + 2) * N) * u = k + 1" .
  have "of_int ((2 * K + 2) * N - 1) * u = of_int ((2 * K + 2) * N) * u - u"
    by (simp add: left_diff_distrib)
  then have g1: "of_int ((2 * K + 2) * N - 1) * u = k + 1 - u" unfolding g2 .
  have Qk: "k \<le> Q"
  proof -
    have "of_int (2 * K * N) * ulp xp \<le> xp" using gk xlo unfolding u_def by linarith
    from fl_ge_grid [OF this] show ?thesis unfolding Q_def u_def [symmetric] gk .
  qed
  define y where "y = Q + EPSILON_HALF"
  have yv: "y = Q + 1 / 2 - 1 / 4503599627370496" by (simp add: y_def EPSILON_HALF_val)
  have yr3: "\<bar>y\<bar> < 262144" using Qlo Qhi xlo xhi k unfolding yv by linarith
  have yr1: "1 \<le> \<bar>y\<bar>" using Qk k unfolding yv by linarith
  have "\<bar>y\<bar> < 4503599627370496" using yr3 by linarith
  then have yr2: "\<bar>y\<bar> < 2 ^ 52" by simp
  note yr = yr1 yr2 yr3
  define S where "S = fl y"
  have "\<bar>S - y\<bar> \<le> 1 / 68719476736" unfolding S_def by (rule fl_error_u [OF yr(3)])
  then have Shi: "S \<le> y + 1 / 68719476736" by linarith
  have K0: "0 \<le> K" "0 \<le> K + 1" using K by simp_all
  show ?thesis
  proof (cases "Q < k + 1 / 2")
    case True
    have "of_int M * u < of_int ((2 * K + 1) * N) * u" using True QM gh by simp
    then have "(of_int M :: rat) < of_int ((2 * K + 1) * N)" using u0 by simp
    then have "M < (2 * K + 1) * N" by (simp only: of_int_less_iff)
    then have "M \<le> (2 * K + 1) * N - 1" by linarith
    then have "(of_int M :: rat) \<le> of_int ((2 * K + 1) * N - 1)" by (simp only: of_int_le_iff)
    then have "of_int M * u \<le> of_int ((2 * K + 1) * N - 1) * u"
      using u0 by (intro mult_right_mono) simp_all
    also have "\<dots> = of_int ((2 * K + 1) * N) * u - u" by (simp add: left_diff_distrib)
    also have "\<dots> = k + 1 / 2 - u" unfolding gh ..
    finally have Qu: "Q \<le> k + 1 / 2 - u" by (simp add: QM)
    have yle: "y \<le> k + 1 - u" using Qu unfolding yv by linarith
    have yge: "k \<le> y" using Qk unfolding yv by linarith
    define e where "e = ilog2 xp"
    from ilog2_range [of 0 xp 52] xr have e: "0 \<le> e" by (simp add: e_def)
    have xnz: "xp \<noteq> 0" using xr(1) by auto
    have xpos: "0 < xp" using xp' k by linarith
    from ilog2_bounds [OF xnz] xpos
    have b: "2 powi e \<le> xp" "xp < 2 powi (e + 1)" by (simp_all add: e_def)
    define P :: int where "P = 2 ^ nat e"
    have P: "(2::rat) powi e = of_int P" "(2::rat) powi (e + 1) = of_int (2 * P)"
      using e by (simp_all add: P_def powi2_nat nat_add_distrib)
    have "(of_int P :: rat) < k + 1" using b(1) xhi unfolding P by linarith
    then have "(of_int P :: rat) < of_int (K + 1)" by (simp add: k_def)
    then have "P < K + 1" by (simp only: of_int_less_iff)
    then have "P \<le> K" by linarith
    then have PK: "(of_int P :: rat) \<le> k" unfolding k_def by (simp only: of_int_le_iff)
    have "k < of_int (2 * P)" using b(2) xlo unfolding P by linarith
    then have "(of_int K :: rat) < of_int (2 * P)" by (simp add: k_def)
    then have "K < 2 * P" by (simp only: of_int_less_iff)
    then have "K + 1 \<le> 2 * P" by linarith
    then have "(of_int (K + 1) :: rat) \<le> of_int (2 * P)" by (simp only: of_int_le_iff)
    then have KP: "k + 1 \<le> of_int (2 * P)" by (simp add: k_def)
    have "2 powi e \<le> \<bar>y\<bar>" "\<bar>y\<bar> < 2 powi (e + 1)"
      unfolding P using PK KP yge yle u0 by linarith+
    then have "ilog2 y = e" by (rule ilog2_unique)
    then have uy: "ulp y = u" by (simp add: ulp_def u_def e_def)
    have "y \<le> of_int ((2 * K + 2) * N - 1) * ulp y" unfolding uy g1 by (rule yle)
    from fl_le_grid [OF this] have "S \<le> k + 1 - u" unfolding S_def uy g1 .
    then have S1: "S < of_int K + 1" using u0 by (simp add: k_def)
    have "of_int (2 * K * N) * ulp y \<le> y" unfolding uy gk by (rule yge)
    from fl_ge_grid [OF this] have S0: "of_int K \<le> S" unfolding S_def uy gk k_def .
    have "int_of_float S = K" using S0 S1 K0(1) by (rule int_of_float_floor)
    moreover have "\<lfloor>Q + 1 / 2\<rfloor> = K" using Qk True by (intro floor_unique) (simp_all add: k_def)
    ultimately show ?thesis by (simp add: S_def y_def Q_def)
  next
    case False
    then have Qh: "k + 1 / 2 \<le> Q" by simp
    have "k + 1 \<le> Q + 1 / 2" "Q + 1 / 2 < k + 1 + 1" using Qh Qhi xhi by linarith+
    then have fl1: "\<lfloor>Q + 1 / 2\<rfloor> = K + 1"
      by (intro floor_unique) (simp_all add: k_def)
    have "S < k + 1 + 1" using Shi Qhi xhi unfolding yv by linarith
    then have S2: "S < of_int (K + 1) + 1" by (simp add: k_def)
    have S1: "of_int (K + 1) \<le> S"
    proof (cases "Q = k + 1 / 2")
      case True
      with sp have "K \<noteq> 1" by (auto simp add: Q_def k_def)
      with K have "3 \<le> K + 1" "K + 1 \<le> 256" by simp_all
      from fl_int_minus_eps [OF this] have "S = of_int (K + 1)"
        unfolding S_def yv True by (simp add: k_def)
      then show ?thesis by simp
    next
      case False
      with Qh have "k + 1 / 2 < Q" by simp
      then have "of_int ((2 * K + 1) * N) * u < of_int M * u" using QM gh by simp
      then have "(of_int ((2 * K + 1) * N) :: rat) < of_int M" using u0 by simp
      then have "(2 * K + 1) * N < M" by (simp only: of_int_less_iff)
      then have "(2 * K + 1) * N + 1 \<le> M" by linarith
      then have "(of_int ((2 * K + 1) * N + 1) :: rat) \<le> of_int M" by (simp only: of_int_le_iff)
      then have "of_int ((2 * K + 1) * N + 1) * u \<le> of_int M * u"
        using u0 by (intro mult_right_mono) simp_all
      moreover have "of_int ((2 * K + 1) * N + 1) * u = of_int ((2 * K + 1) * N) * u + u"
        by (simp add: distrib_right)
      then have "of_int ((2 * K + 1) * N + 1) * u = k + 1 / 2 + u" unfolding gh .
      ultimately have "k + 1 / 2 + u \<le> Q" by (simp add: QM)
      then have yge: "k + 1 \<le> y" using u52 unfolding yv by linarith
      from half_on_grid [OF yr(1,2)] obtain N' where N': "of_int N' * ulp y = 1 / 2" by blast
      have "of_int ((2 * K + 2) * N') * ulp y = of_int (2 * K + 2) * (1 / 2)"
        by (rule grid_mult [OF N'])
      also have "\<dots> = k + 1" by (simp add: k_def)
      finally have g: "of_int ((2 * K + 2) * N') * ulp y = k + 1" .
      have "of_int ((2 * K + 2) * N') * ulp y \<le> y" unfolding g by (rule yge)
      from fl_ge_grid [OF this] have "k + 1 \<le> S" unfolding S_def g .
      then show ?thesis by (simp add: k_def)
    qed
    have "int_of_float S = K + 1" using S1 S2 K0(2) by (rule int_of_float_floor)
    with fl1 show ?thesis by (simp add: S_def y_def Q_def)
  qed
qed

subsection \<open>The input whose recovered value is next to \<open>3 / 2\<close>\<close>

lemma fl_two_thirds: "fl (2 / 3) = 6004799503160661 / 9007199254740992"
proof -
  have "fl (2 / 3) = of_int 6004799503160661 * 2 powi (- 1 - 52)"
    by (rule fl_eval) (simp_all add: power_int_minus)
  then show ?thesis by (simp add: power_int_minus)
qed

lemma recovered_value_86_170:
  "recovered_value 86 (fl (2 / 3)) = Inr (6755399441055648 / 4503599627370496)"
proof -
  define R :: rat where "R = 6004799503160661 / 9007199254740992"
  define a :: rat where "a = 3002399751580331 / 9007199254740992"
  define b :: rat where "b = 5981343255101441 / 70368744177664"
  define d :: rat where "d = 70368744177663 / 70368744177664"
  have "fl (1 - R) = of_int 6004799503160662 * 2 powi (- 2 - 52)"
    unfolding R_def by (rule fl_eval) (simp_all add: power_int_minus)
  then have 1: "fl (1 - R) = a" by (simp add: power_int_minus a_def)
  have "fl (a * 255) = of_int 5981343255101441 * 2 powi (6 - 52)"
    unfolding a_def by (rule fl_eval) (simp_all add: power_int_minus)
  then have 2: "fl (a * 255) = b" by (simp add: power_int_minus b_def)
  have "fl 86 = of_int 6051711999279104 * 2 powi (6 - 52)"
    by (rule fl_eval) (simp_all add: power_int_minus)
  then have 3: "fl 86 = 86" by (simp add: power_int_minus)
  have "fl (86 - b) = of_int 9007199254740864 * 2 powi (- 1 - 52)"
    unfolding b_def by (rule fl_eval) (simp_all add: power_int_minus)
  then have 4: "fl (86 - b) = d" by (simp add: power_int_minus d_def)
  have "fl (d / R) = of_int 6755399441055648 * 2 powi (0 - 52)"
    unfolding d_def R_def by (rule fl_eval) (simp_all add: power_int_minus)
  then have 5: "fl (d / R) = 6755399441055648 / 4503599627370496" by (simp add: power_int_minus)
  have r1: "round_double (1 - R) = Inr a"
    unfolding 1 [symmetric] by (rule round_double_u) (simp add: R_def)
  have r2: "round_double (a * 255) = Inr b"
    unfolding 2 [symmetric] by (rule round_double_u) (simp add: a_def)
  have r3: "round_double 86 = Inr 86"
    using round_double_u [of 86] by (simp add: 3)
  have r4: "round_double (86 - b) = Inr d"
    unfolding 4 [symmetric] by (rule round_double_u) (simp add: b_def)
  have r5: "round_double (d / R) = Inr (6755399441055648 / 4503599627370496)"
    unfolding 5 [symmetric] by (rule round_double_u) (simp add: d_def R_def)
  have R0: "R \<noteq> 0" by (simp add: R_def)
  show ?thesis
    unfolding fl_two_thirds R_def [symmetric] recovered_value_def float_sub_def float_mul_def
      float_of_int_def float_div_def
    using R0 by (simp add: rbind_def r1 r2 r3 r4 r5)
qed

section \<open>One channel of the unblend function\<close>

subsection \<open>Error analysis of the recovered value\<close>

lemma int_truediv_255:
  assumes "1 \<le> alpha" and "alpha \<le> 255"
  shows "int_truediv alpha 255 = Inr (fl (of_int alpha / 255))"
    and "\<bar>fl (of_int alpha / 255) - of_int alpha / 255\<bar> \<le> 1 / 2 ^ 36"
proof -
  have "(of_int alpha :: rat) \<le> 255" "(1::rat) \<le> of_int alpha" using assms by simp_all
  then have b: "\<bar>(of_int alpha :: rat) / 255\<bar> < 2 ^ 18" by simp
  show "int_truediv alpha 255 = Inr (fl (of_int alpha / 255))"
    using round_double_small [OF b] by (simp add: int_truediv_def)
  show "\<bar>fl (of_int alpha / 255) - of_int alpha / 255\<bar> \<le> 1 / 2 ^ 36"
    by (rule fl_error_small [OF b])
qed

lemma recovered_value_analysis:
  fixes alpha v :: int and ratio :: rat
  assumes a: "1 \<le> alpha" "alpha \<le> 255"
    and v: "255 - alpha \<le> v" "v \<le> 255"
    and r: "\<bar>ratio - of_int alpha / 255\<bar> \<le> 1 / 2 ^ 36"
  obtains d where "recovered_value v ratio = Inr (fl (d / ratio))"
    and "\<bar>d / ratio - 255 * of_int (v - 255 + alpha) / of_int alpha\<bar> \<le> 1 / 2 ^ 18"
    and "0 < ratio"
proof -
  define u :: rat where "u = 1 / 68719476736"
  define A :: rat where "A = of_int alpha"
  define V :: rat where "V = of_int v"
  have A: "1 \<le> A" "A \<le> 255" using a by (simp_all add: A_def)
  have "of_int (255 - alpha) \<le> V" unfolding V_def using v(1) by (simp only: of_int_le_iff)
  then have V: "255 - A \<le> V" "V \<le> 255" using v(2) by (simp_all add: A_def V_def)
  define rho where "rho = ratio - A / 255"
  have rho: "\<bar>rho\<bar> \<le> u" using r by (simp add: rho_def A_def u_def)
  have ratio: "ratio = A / 255 + rho" by (simp add: rho_def)
  have rpos: "1 / 256 \<le> ratio" using A rho unfolding ratio u_def by linarith
  have rle: "ratio \<le> 2" using A rho unfolding ratio u_def by linarith
  define a' where "a' = fl (1 - ratio)"
  have s1: "\<bar>1 - ratio\<bar> < 262144" using rpos rle by linarith
  have e2: "\<bar>a' - (1 - ratio)\<bar> \<le> u" unfolding a'_def u_def by (rule fl_error_u [OF s1])
  define b where "b = fl (a' * 255)"
  have s2: "\<bar>a' * 255\<bar> < 262144" using e2 rpos rle unfolding u_def by linarith
  have e3: "\<bar>b - a' * 255\<bar> \<le> u" unfolding b_def u_def by (rule fl_error_u [OF s2])
  define fv where "fv = fl V"
  have s0: "\<bar>V\<bar> < 262144" using V A by linarith
  have e0: "\<bar>fv - V\<bar> \<le> u" unfolding fv_def u_def by (rule fl_error_u [OF s0])
  define d where "d = fl (fv - b)"
  have s4: "\<bar>fv - b\<bar> < 262144"
    using e0 e3 e2 V A rpos rle unfolding u_def by linarith
  have e4: "\<bar>d - (fv - b)\<bar> \<le> u" unfolding d_def u_def by (rule fl_error_u [OF s4])
  define J where "J = V - 255 + A"
  define E where "E = d - J - 255 * rho"
  have E: "\<bar>E\<bar> \<le> 258 * u"
    using e0 e2 e3 e4 unfolding E_def J_def ratio by linarith
  have J: "0 \<le> J" "J \<le> A" using V by (simp_all add: J_def)
  define t where "t = J / A"
  have t: "0 \<le> t" "t \<le> 1" using J A by (simp_all add: t_def)
  have x: "255 * of_int (v - 255 + alpha) / of_int alpha = 255 * t"
    by (simp add: t_def J_def V_def A_def)
  have tA: "t * A = J" using A by (simp add: t_def)
  have "255 * t * ratio = 255 * t * rho + t * A" unfolding ratio by (simp add: algebra_simps)
  then have "d - 255 * t * ratio = 255 * (rho * (1 - t)) + E"
    unfolding tA E_def by (simp add: algebra_simps)
  moreover have "\<bar>rho * (1 - t)\<bar> \<le> u * 1"
    unfolding abs_mult using rho t by (intro mult_mono) simp_all
  ultimately have dx: "\<bar>d - 255 * t * ratio\<bar> \<le> 513 * u" using E by linarith
  have "513 * u \<le> 1 / 262144 * (1 / 256)" by (simp add: u_def)
  also have "\<dots> \<le> 1 / 262144 * ratio" using rpos by (intro mult_left_mono) simp_all
  finally have dx': "\<bar>d - 255 * t * ratio\<bar> \<le> 1 / 262144 * ratio" using dx by linarith
  have r0: "0 < ratio" using rpos by linarith
  have "d / ratio - 255 * t = (d - 255 * t * ratio) / ratio" using r0 by (simp add: field_simps)
  then have "\<bar>d / ratio - 255 * t\<bar> = \<bar>d - 255 * t * ratio\<bar> / ratio"
    using r0 by (simp add: abs_divide)
  also have "\<dots> \<le> 1 / 262144" using dx' r0 by (simp add: pos_divide_le_eq)
  finally have close: "\<bar>d / ratio - 255 * t\<bar> \<le> 1 / 262144" .
  have s5: "\<bar>d / ratio\<bar> < 262144" using close t by linarith
  have "recovered_value v ratio = Inr (fl (d / ratio))"
    using r0 unfolding recovered_value_def float_sub_def float_mul_def float_of_int_def float_div_def
    by (simp add: rbind_def round_double_u [OF s1] a'_def [symmetric] round_double_u [OF s2]
        b_def [symmetric] V_def [symmetric] round_double_u [OF s0] fv_def [symmetric]
        round_double_u [OF s4] d_def [symmetric] round_double_u [OF s5])
  moreover have "\<bar>d / ratio - 255 * of_int (v - 255 + alpha) / of_int alpha\<bar> \<le> 1 / 2 ^ 18"
    using close unfolding x by simp
  ultimately show ?thesis using r0 by (rule that)
qed

subsection \<open>The channel is the recovered value rounded half up\<close>

lemma exact_recovered_eq:
  assumes "alpha \<noteq> 0"
  shows "exact_recovered v alpha = 255 * of_int (v - 255 + alpha) / of_int alpha"
  using assms by (simp add: exact_recovered_def field_simps)

lemma channel_main:
  fixes alpha v :: int
  assumes a: "1 \<le> alpha" "alpha \<le> 255" and v: "255 - alpha \<le> v" "v \<le> 255"
  shows "\<exists>q. recovered_value v (fl (of_int alpha / 255)) = Inr q
           \<and> recover_channel v (fl (of_int alpha / 255)) = Inr \<lfloor>q + 1 / 2\<rfloor>
           \<and> \<bar>q - exact_recovered v alpha\<bar> \<le> 1 / 2 ^ 17"
proof -
  define ratio where "ratio = fl (of_int alpha / 255)"
  have r: "\<bar>ratio - of_int alpha / 255\<bar> \<le> 1 / 2 ^ 36"
    unfolding ratio_def by (rule int_truediv_255(2) [OF a])
  define j where "j = v - 255 + alpha"
  define A :: rat where "A = of_int alpha"
  define x :: rat where "x = 255 * of_int j / A"
  have A: "1 \<le> A" "A \<le> 255" using a by (simp_all add: A_def)
  have j: "0 \<le> j" "j \<le> alpha" using v by (simp_all add: j_def)
  have ex: "exact_recovered v alpha = x"
    using a by (simp add: exact_recovered_eq x_def j_def A_def)
  from recovered_value_analysis [OF a v r] obtain d
    where rv: "recovered_value v ratio = Inr (fl (d / ratio))"
      and "\<bar>d / ratio - 255 * of_int (v - 255 + alpha) / of_int alpha\<bar> \<le> 1 / 2 ^ 18"
    by blast
  then have dx: "\<bar>d / ratio - x\<bar> \<le> 1 / 262144" by (simp add: x_def j_def A_def)
  have x0: "0 \<le> x" using j A by (simp add: x_def)
  have "of_int j \<le> A" unfolding A_def using j(2) by (simp only: of_int_le_iff)
  then have "255 * of_int j / A \<le> 255" using A by (simp add: pos_divide_le_eq)
  then have x255: "x \<le> 255" by (simp add: x_def)
  define q where "q = fl (d / ratio)"
  have s5: "\<bar>d / ratio\<bar> < 262144" using dx x0 x255 by linarith
  have qe: "\<bar>q - d / ratio\<bar> \<le> 1 / 68719476736" unfolding q_def by (rule fl_error_u [OF s5])
  have qx: "\<bar>q - x\<bar> \<le> 1 / 131072" using qe dx by linarith
  define y where "y = q + EPSILON_HALF"
  have yv: "y = q + 1 / 2 - 1 / 4503599627370496" by (simp add: y_def EPSILON_HALF_val)
  have s6: "\<bar>y\<bar> < 262144" using qx x0 x255 unfolding yv by linarith
  define S where "S = fl y"
  have Se: "\<bar>S - y\<bar> \<le> 1 / 68719476736" unfolding S_def by (rule fl_error_u [OF s6])
  have rc: "recover_channel v ratio = Inr (int_of_float S)"
    by (simp add: recover_channel_def rv rbind_def float_add_def q_def [symmetric]
        y_def [symmetric] round_double_u [OF s6] S_def)
  define m where "m = 510 * j + alpha"
  define k where "k = m div (2 * alpha)"
  define rem where "rem = m mod (2 * alpha)"
  have m: "m = 2 * alpha * k + rem" by (simp add: k_def rem_def)
  have rem: "0 \<le> rem" "rem < 2 * alpha" using a by (simp_all add: rem_def)
  have m0: "alpha \<le> m" using j by (simp add: m_def)
  have "x + 1 / 2 = of_int m / (2 * A)" using A by (simp add: x_def m_def A_def field_simps)
  also have "\<dots> = of_int k + of_int rem / (2 * A)"
    using A unfolding m by (simp add: A_def field_simps)
  finally have xk: "x + 1 / 2 = of_int k + of_int rem / (2 * A)" .
  have "int_of_float S = \<lfloor>q + 1 / 2\<rfloor>"
  proof (cases "rem = 0")
    case False
    with rem have "1 \<le> rem" "rem \<le> 2 * alpha - 1" by simp_all
    then have "(of_int 1 :: rat) \<le> of_int rem" "(of_int rem :: rat) \<le> of_int (2 * alpha - 1)"
      by (simp_all only: of_int_le_iff)
    then have rr: "1 \<le> (of_int rem :: rat)" "of_int rem \<le> 2 * A - 1" by (simp_all add: A_def)
    have "1 / 510 \<le> 1 / (2 * A)" using A by (simp add: field_simps)
    also have "\<dots> \<le> of_int rem / (2 * A)" using rr(1) A by (simp add: divide_right_mono)
    finally have lo: "1 / 510 \<le> of_int rem / (2 * A)" .
    have "of_int rem / (2 * A) \<le> (2 * A - 1) / (2 * A)" using rr(2) A by (simp add: divide_right_mono)
    also have "\<dots> = 1 - 1 / (2 * A)" using A by (simp add: field_simps)
    also have "\<dots> \<le> 1 - 1 / 510" using A by (simp add: field_simps)
    finally have hi: "of_int rem / (2 * A) \<le> 1 - 1 / 510" .
    have "0 \<le> m" using m0 a by linarith
    then have k0: "0 \<le> k" unfolding k_def using a by (simp add: pos_imp_zdiv_nonneg_iff)
    have S0: "of_int k \<le> S" using Se qx xk lo unfolding yv by linarith
    have S1: "S < of_int k + 1" using Se qx xk hi unfolding yv by linarith
    have "int_of_float S = k" using S0 S1 k0 by (rule int_of_float_floor)
    moreover have "of_int k \<le> q + 1 / 2" "q + 1 / 2 < of_int k + 1" using qx xk lo hi by linarith+
    then have "\<lfloor>q + 1 / 2\<rfloor> = k" by (intro floor_unique)
    ultimately show ?thesis by simp
  next
    case True
    define K where "K = k - 1"
    have xK: "x = of_int K + 1 / 2" using xk True by (simp add: K_def)
    have "(of_int K :: rat) < of_int 255" "(of_int (- 1) :: rat) < of_int K"
      using x0 x255 unfolding xK by simp_all
    then have K0: "0 \<le> K" "K \<le> 254" by (simp_all only: of_int_less_iff)
    have mk: "510 * j + alpha = 2 * alpha * (K + 1)" using m True by (simp add: m_def K_def)
    have K1: "1 \<le> K"
    proof (rule ccontr)
      assume "\<not> 1 \<le> K"
      with K0 have "K = 0" by simp
      with mk have "510 * j = alpha" by simp
      with a j show False by (cases "j \<le> 0") linarith+
    qed
    have sp: "K = 1 \<longrightarrow> fl (d / ratio) \<noteq> 3 / 2"
    proof
      assume "K = 1"
      with mk have "510 * j = 3 * alpha" by simp
      with a j have "\<not> j \<le> 0" "\<not> 2 \<le> j" by linarith+
      then have "j = 1" by linarith
      with \<open>510 * j = 3 * alpha\<close> have "alpha = 170" by linarith
      have v86: "v = 86" using \<open>j = 1\<close> \<open>alpha = 170\<close> by (simp add: j_def)
      have "ratio = fl (2 / 3)" by (simp add: ratio_def \<open>alpha = 170\<close>)
      with rv have "Inr (fl (d / ratio)) = (Inr (6755399441055648 / 4503599627370496) :: error + rat)"
        by (simp add: v86 recovered_value_86_170)
      then show "fl (d / ratio) \<noteq> 3 / 2" by simp
    qed
    have "\<bar>d / ratio - (of_int K + 1 / 2)\<bar> \<le> 1 / 2 ^ 18" using dx unfolding xK by simp
    from tie_round [OF K1 K0(2) this sp] show ?thesis by (simp add: S_def y_def q_def)
  qed
  with rc have "recover_channel v ratio = Inr \<lfloor>q + 1 / 2\<rfloor>" by simp
  moreover have "\<bar>q - exact_recovered v alpha\<bar> \<le> 1 / 2 ^ 17" using qx by (simp add: ex)
  ultimately show ?thesis using rv unfolding q_def ratio_def by blast
qed

section \<open>The unblend function on 8-bit inputs\<close>

lemma unblend_main:
  fixes r g b alpha :: int
  assumes r: "0 \<le> r" "r \<le> 255" and g: "0 \<le> g" "g \<le> 255" and b: "0 \<le> b" "b \<le> 255"
    and al: "alpha = 255 - min r (min g b)" and nz: "alpha \<noteq> 0"
  shows "\<exists>qr qg qb.
           recovered_value r (fl (of_int alpha / 255)) = Inr qr
         \<and> recovered_value g (fl (of_int alpha / 255)) = Inr qg
         \<and> recovered_value b (fl (of_int alpha / 255)) = Inr qb
         \<and> calculate_transparency r g b
             = Inr (\<lfloor>qr + 1 / 2\<rfloor>, \<lfloor>qg + 1 / 2\<rfloor>, \<lfloor>qb + 1 / 2\<rfloor>, alpha)
         \<and> \<bar>qr - exact_recovered r alpha\<bar> \<le> 1 / 2 ^ 17
         \<and> \<bar>qg - exact_recovered g alpha\<bar> \<le> 1 / 2 ^ 17
         \<and> \<bar>qb - exact_recovered b alpha\<bar> \<le> 1 / 2 ^ 17"
proof -
  have a: "1 \<le> alpha" "alpha \<le> 255" using r g b al nz by linarith+
  have vr: "255 - alpha \<le> r" and vg: "255 - alpha \<le> g" and vb: "255 - alpha \<le> b"
    using al by linarith+
  from channel_main [OF a vr r(2)] obtain qr where
    qr: "recovered_value r (fl (of_int alpha / 255)) = Inr qr"
      "recover_channel r (fl (of_int alpha / 255)) = Inr \<lfloor>qr + 1 / 2\<rfloor>"
      "\<bar>qr - exact_recovered r alpha\<bar> \<le> 1 / 2 ^ 17" by blast
  from channel_main [OF a vg g(2)] obtain qg where
    qg: "recovered_value g (fl (of_int alpha / 255)) = Inr qg"
      "recover_channel g (fl (of_int alpha / 255)) = Inr \<lfloor>qg + 1 / 2\<rfloor>"
      "\<bar>qg - exact_recovered g alpha\<bar> \<le> 1 / 2 ^ 17" by blast
  from channel_main [OF a vb b(2)] obtain qb where
    qb: "recovered_value b (fl (of_int alpha / 255)) = Inr qb"
      "recover_channel b (fl (of_int alpha / 255)) = Inr \<lfloor>qb + 1 / 2\<rfloor>"
      "\<bar>qb - exact_recovered b alpha\<bar> \<le> 1 / 2 ^ 17" by blast
  have "calculate_transparency r g b
          = Inr (\<lfloor>qr + 1 / 2\<rfloor>, \<lfloor>qg + 1 / 2\<rfloor>, \<lfloor>qb + 1 / 2\<rfloor>, alpha)"
    using nz by (simp add: calculate_transparency_def al [symmetric] rbind_def
        int_truediv_255(1) [OF a] qr(2) qg(2) qb(2))
  with qr(1,3) qg(1,3) qb(1,3) show ?thesis by blast
qed

lemma floor_half_near:
  fixes q x :: rat
  assumes "\<bar>q - x\<bar> \<le> 1 / 2 ^ 17"
  shows "\<bar>of_int \<lfloor>q + 1 / 2\<rfloor> - x\<bar> \<le> 1 / 2 + 1 / 2 ^ 17"
proof -
  have "of_int \<lfloor>q + 1 / 2\<rfloor> \<le> q + 1 / 2" "q + 1 / 2 < of_int \<lfloor>q + 1 / 2\<rfloor> + 1"
    by linarith+
  moreover have "\<bar>q - x\<bar> \<le> 1 / 131072" using assms by simp
  ultimately have "\<bar>of_int \<lfloor>q + 1 / 2\<rfloor> - x\<bar> \<le> 1 / 2 + 1 / 131072" by linarith
  then show ?thesis by simp
qed

lemma unblend_near:
  fixes r g b alpha :: int
  assumes r: "0 \<le> r" "r \<le> 255" and g: "0 \<le> g" "g \<le> 255" and b: "0 \<le> b" "b \<le> 255"
    and al: "alpha = 255 - min r (min g b)" and nz: "alpha \<noteq> 0"
  obtains R G B where "calculate_transparency r g b = Inr (R, G, B, alpha)"
    and "\<bar>of_int R - exact_recovered r alpha\<bar> \<le> 1 / 2 + 1 / 2 ^ 17"
    and "\<bar>of_int G - exact_recovered g alpha\<bar> \<le> 1 / 2 + 1 / 2 ^ 17"
    and "\<bar>of_int B - exact_recovered b alpha\<bar> \<le> 1 / 2 + 1 / 2 ^ 17"
proof -
  from unblend_main [OF assms] obtain qr qg qb where
    c: "calculate_transparency r g b
          = Inr (\<lfloor>qr + 1 / 2\<rfloor>, \<lfloor>qg + 1 / 2\<rfloor>, \<lfloor>qb + 1 / 2\<rfloor>, alpha)"
    and q: "\<bar>qr - exact_recovered r alpha\<bar> \<le> 1 / 2 ^ 17"
      "\<bar>qg - exact_recovered g alpha\<bar> \<le> 1 / 2 ^ 17"
      "\<bar>qb - exact_recovered b alpha\<bar> \<le> 1 / 2 ^ 17" by blast
  show ?thesis
    using c floor_half_near [OF q(1)] floor_half_near [OF q(2)] floor_half_near [OF q(3)]
    by (rule that)
qed

lemma exact_recovered_range:
  fixes alpha v :: int
  assumes "1 \<le> alpha" and "255 - alpha \<le> v" and "v \<le> 255"
  shows "0 \<le> exact_recovered v alpha" and "exact_recovered v alpha \<le> 255"
proof -
  define A :: rat where "A = of_int alpha"
  define J :: rat where "J = of_int (v - 255 + alpha)"
  have A: "1 \<le> A" using assms(1) by (simp add: A_def)
  have "(of_int 0 :: rat) \<le> of_int (v - 255 + alpha)" "(of_int (v - 255 + alpha) :: rat) \<le> of_int alpha"
    using assms(2,3) by (simp_all only: of_int_le_iff)
  then have J: "0 \<le> J" "J \<le> A" by (simp_all add: J_def A_def)
  have e: "exact_recovered v alpha = 255 * J / A"
    using assms(1) by (simp add: exact_recovered_eq J_def A_def)
  show "0 \<le> exact_recovered v alpha" unfolding e using J A by simp
  have "255 * J / A \<le> 255" using J A by (simp add: pos_divide_le_eq)
  then show "exact_recovered v alpha \<le> 255" unfolding e .
qed

lemma exact_recovered_min:
  assumes "alpha \<noteq> 0"
  shows "exact_recovered (255 - alpha) alpha = 0"
  using assms by (simp add: exact_recovered_eq)

lemma exact_recovered_opaque: "exact_recovered v 255 = of_int v"
  by (simp add: exact_recovered_eq)

lemma int_near_unique:
  fixes n m :: int
  assumes "\<bar>(of_int n :: rat) - of_int m\<bar> \<le> 1 / 2 + 1 / 2 ^ 17"
  shows "n = m"
proof -
  have "\<bar>(of_int (n - m) :: rat)\<bar> < of_int 1" using assms by simp
  then have "\<bar>n - m\<bar> < 1" by (simp only: of_int_less_iff flip: of_int_abs)
  then show ?thesis by linarith
qed

lemma unblend_opaque:
  fixes r g b :: int
  assumes r: "0 \<le> r" "r \<le> 255" and g: "0 \<le> g" "g \<le> 255" and b: "0 \<le> b" "b \<le> 255"
    and m: "min r (min g b) = 0"
  shows "calculate_transparency r g b = Inr (r, g, b, 255)"
proof -
  have al: "(255::int) = 255 - min r (min g b)" using m by simp
  from unblend_near [OF r g b al] obtain R G B where
    c: "calculate_transparency r g b = Inr (R, G, B, 255)"
    and n: "\<bar>of_int R - exact_recovered r 255\<bar> \<le> 1 / 2 + 1 / 2 ^ 17"
      "\<bar>of_int G - exact_recovered g 255\<bar> \<le> 1 / 2 + 1 / 2 ^ 17"
      "\<bar>of_int B - exact_recovered b 255\<bar> \<le> 1 / 2 + 1 / 2 ^ 17" by auto
  have "R = r" using n(1) unfolding exact_recovered_opaque by (rule int_near_unique)
  moreover have "G = g" using n(2) unfolding exact_recovered_opaque by (rule int_near_unique)
  moreover have "B = b" using n(3) unfolding exact_recovered_opaque by (rule int_near_unique)
  ultimately show ?thesis using c by simp
qed

subsection \<open>An exact tie\<close>

text \<open>
  The exact recovered value of the red channel of \<open>(192, 185, 255)\<close> is \<open>51/2\<close>. The binary64
  value is \<open>7177611906121727 / 2\<^sup>4\<^sup>8\<close>, just below it, and the channel comes out as 25: at a tie
  of the exact value, the rounding errors of the float quotient decide the direction.
\<close>

lemma recovered_value_192_70:
  "recovered_value 192 (fl (14 / 51)) = Inr (7177611906121727 / 281474976710656)"
proof -
  define R :: rat where "R = 4945129002602898 / 18014398509481984"
  define a :: rat where "a = 6534634753439543 / 9007199254740992"
  define b :: rat where "b = 6509108836433920 / 35184372088832"
  define d :: rat where "d = 7881299347898368 / 1125899906842624"
  have "fl (14 / 51) = of_int 4945129002602898 * 2 powi (- 2 - 52)"
    by (rule fl_eval) (simp_all add: power_int_minus)
  then have 0: "fl (14 / 51) = R" by (simp add: power_int_minus R_def)
  have "fl (1 - R) = of_int 6534634753439543 * 2 powi (- 1 - 52)"
    unfolding R_def by (rule fl_eval) (simp_all add: power_int_minus)
  then have 1: "fl (1 - R) = a" by (simp add: power_int_minus a_def)
  have "fl (a * 255) = of_int 6509108836433920 * 2 powi (7 - 52)"
    unfolding a_def by (rule fl_eval) (simp_all add: power_int_minus)
  then have 2: "fl (a * 255) = b" by (simp add: power_int_minus b_def)
  have "fl 192 = of_int 6755399441055744 * 2 powi (7 - 52)"
    by (rule fl_eval) (simp_all add: power_int_minus)
  then have 3: "fl 192 = 192" by (simp add: power_int_minus)
  have "fl (192 - b) = of_int 7881299347898368 * 2 powi (2 - 52)"
    unfolding b_def by (rule fl_eval) (simp_all add: power_int_minus)
  then have 4: "fl (192 - b) = d" by (simp add: power_int_minus d_def)
  have "fl (d / R) = of_int 7177611906121727 * 2 powi (4 - 52)"
    unfolding d_def R_def by (rule fl_eval) (simp_all add: power_int_minus)
  then have 5: "fl (d / R) = 7177611906121727 / 281474976710656" by (simp add: power_int_minus)
  have r1: "round_double (1 - R) = Inr a"
    unfolding 1 [symmetric] by (rule round_double_u) (simp add: R_def)
  have r2: "round_double (a * 255) = Inr b"
    unfolding 2 [symmetric] by (rule round_double_u) (simp add: a_def)
  have r3: "round_double 192 = Inr 192"
    using round_double_u [of 192] by (simp add: 3)
  have r4: "round_double (192 - b) = Inr d"
    unfolding 4 [symmetric] by (rule round_double_u) (simp add: b_def)
  have r5: "round_double (d / R) = Inr (7177611906121727 / 281474976710656)"
    unfolding 5 [symmetric] by (rule round_double_u) (simp add: d_def R_def)
  have R0: "R \<noteq> 0" by (simp add: R_def)
  show ?thesis
    unfolding 0 recovered_value_def float_sub_def float_mul_def float_of_int_def float_div_def
    using R0 by (simp add: rbind_def r1 r2 r3 r4 r5)
qed

lemma exact_tie_rounds_down:
  "calculate_transparency 192 185 255 = Inr (25, 0, 255, 70)"
  "exact_recovered 192 70 = 51 / 2"
  "round_half_up (exact_recovered 192 70) = 26"
proof -
  from unblend_main [of 192 185 255 70] obtain qr qg qb where
    q: "recovered_value 192 (fl (14 / 51)) = Inr qr"
    and c: "calculate_transparency 192 185 255
              = Inr (\<lfloor>qr + 1 / 2\<rfloor>, \<lfloor>qg + 1 / 2\<rfloor>, \<lfloor>qb + 1 / 2\<rfloor>, 70)"
    and n: "\<bar>qg - exact_recovered 185 70\<bar> \<le> 1 / 2 ^ 17" "\<bar>qb - exact_recovered 255 70\<bar> \<le> 1 / 2 ^ 17"
    by auto
  have qr: "qr = 7177611906121727 / 281474976710656"
    using q unfolding recovered_value_192_70 by (simp only: sum.inject)
  have R: "\<lfloor>qr + 1 / 2\<rfloor> = 25" unfolding qr by (rule floor_unique) simp_all
  have "\<bar>(of_int \<lfloor>qg + 1 / 2\<rfloor> :: rat) - of_int 0\<bar> \<le> 1 / 2 + 1 / 2 ^ 17"
    using floor_half_near [OF n(1)] by (simp add: exact_recovered_def)
  then have G: "\<lfloor>qg + 1 / 2\<rfloor> = 0" by (rule int_near_unique)
  have "\<bar>(of_int \<lfloor>qb + 1 / 2\<rfloor> :: rat) - of_int 255\<bar> \<le> 1 / 2 + 1 / 2 ^ 17"
    using floor_half_near [OF n(2)] by (simp add: exact_recovered_def)
  then have B: "\<lfloor>qb + 1 / 2\<rfloor> = 255" by (rule int_near_unique)
  show "calculate_transparency 192 185 255 = Inr (25, 0, 255, 70)" using c R G B by simp
  show e: "exact_recovered 192 70 = 51 / 2" by (simp add: exact_recovered_def)
  show "round_half_up (exact_recovered 192 70) = 26" unfolding e round_half_up_def by simp
qed

section \<open>The specification's claims about the unblend function\<close>

lemma unblend_shape:
  fixes r g b :: int
  assumes "0 \<le> r" "r \<le> 255" "0 \<le> g" "g \<le> 255" "0 \<le> b" "b \<le> 255"
  shows "\<exists>R G B. calculate_transparency r g b = Inr (R, G, B, 255 - min r (min g b))"
proof (cases "255 - min r (min g b) = 0")
  case True
  then show ?thesis by (simp add: calculate_transparency_def)
next
  case False
  from unblend_near [OF assms refl False] show ?thesis by blast
qed

lemma ratio_positive:
  fixes alpha :: int
  assumes "1 \<le> alpha" and "alpha \<le> 255"
  shows "\<exists>ratio. int_truediv alpha 255 = Inr ratio \<and> 0 < ratio"
proof -
  have "(1::rat) \<le> of_int alpha" using assms(1) by simp
  moreover have "\<bar>fl (of_int alpha / 255) - of_int alpha / 255\<bar> \<le> 1 / 68719476736"
    using int_truediv_255(2) [OF assms] by simp
  ultimately have "0 < fl (of_int alpha / 255)" by linarith
  with int_truediv_255(1) [OF assms] show ?thesis by blast
qed

text \<open>
  Claim C1. For every input \<open>(r, g, b)\<close> with each component an integer in \<open>[0, 255]\<close>,
  \<^verbatim>\<open>calculate_transparency\<close> returns, and the alpha component it returns is
  \<open>255 - min(r, g, b)\<close>.
\<close>

theorem alpha_is_255_minus_min:
  fixes r g b :: int
  assumes "0 \<le> r" "r \<le> 255" "0 \<le> g" "g \<le> 255" "0 \<le> b" "b \<le> 255"
  shows "\<exists>R G B. calculate_transparency r g b = Inr (R, G, B, 255 - min r (min g b))"
  using assms by (rule unblend_shape)

theorem alpha_is_255_minus_min_witness:
  "\<exists>R G B. calculate_transparency 255 128 128 = Inr (R, G, B, 127)"
  using alpha_is_255_minus_min [of 255 128 128] by simp

text \<open>
  Claim C3. When \<open>min(r, g, b) = 255\<close>, that is when \<open>255 - min(r, g, b) = 0\<close>,
  \<^verbatim>\<open>calculate_transparency\<close> returns exactly \<open>(0, 0, 0, 0)\<close>: the branch \<^verbatim>\<open>alpha == 0\<close> returns
  before \<^verbatim>\<open>ratio\<close> is computed, so nothing is divided. The witness is pure white,
  \<open>(255, 255, 255)\<close>.
\<close>

theorem white_is_fully_transparent:
  fixes r g b :: int
  assumes "min r (min g b) = 255"
  shows "calculate_transparency r g b = Inr (0, 0, 0, 0)"
  using assms by (simp add: calculate_transparency_def)

theorem white_is_fully_transparent_witness:
  "calculate_transparency 255 255 255 = Inr (0, 0, 0, 0)"
  using white_is_fully_transparent [of 255 255 255] by simp

text \<open>
  Claim C6. For every input in \<open>[0, 255]\<^sup>3\<close> with \<open>min(r, g, b) = 0\<close> the result is
  \<open>(r, g, b, 255)\<close>: alpha is 255 and the channels pass through unchanged. The witness is
  \<open>(0, 0, 0)\<close>, which gives \<open>(0, 0, 0, 255)\<close>.
\<close>

theorem opaque_passes_through:
  fixes r g b :: int
  assumes "0 \<le> r" "r \<le> 255" "0 \<le> g" "g \<le> 255" "0 \<le> b" "b \<le> 255"
    and "min r (min g b) = 0"
  shows "calculate_transparency r g b = Inr (r, g, b, 255)"
  using assms by (rule unblend_opaque)

theorem opaque_passes_through_witness:
  "calculate_transparency 0 0 0 = Inr (0, 0, 0, 255)"
  using opaque_passes_through [of 0 0 0] by simp

text \<open>
  Claim C8. \<^verbatim>\<open>calculate_transparency\<close> is total on \<open>[0, 255]\<^sup>3\<close>: it returns a value, so none of
  its operations raises (no \<^verbatim>\<open>ZeroDivisionError\<close>, no \<^verbatim>\<open>OverflowError\<close>), and whenever alpha is
  not zero the divisor \<^verbatim>\<open>ratio\<close> is a positive float. The function is a function of its three
  arguments alone: it reads and writes no state.
\<close>

theorem calculate_transparency_total:
  fixes r g b :: int
  assumes "0 \<le> r" "r \<le> 255" "0 \<le> g" "g \<le> 255" "0 \<le> b" "b \<le> 255"
  shows "(\<exists>res. calculate_transparency r g b = Inr res)
       \<and> (255 - min r (min g b) \<noteq> 0 \<longrightarrow>
            (\<exists>ratio. int_truediv (255 - min r (min g b)) 255 = Inr ratio \<and> 0 < ratio))"
proof -
  have "\<exists>res. calculate_transparency r g b = Inr res"
    using unblend_shape [OF assms] by blast
  moreover have "\<exists>ratio. int_truediv (255 - min r (min g b)) 255 = Inr ratio \<and> 0 < ratio"
    if "255 - min r (min g b) \<noteq> 0"
  proof (rule ratio_positive)
    show "1 \<le> 255 - min r (min g b)" using that assms by linarith
    show "255 - min r (min g b) \<le> 255" using assms by linarith
  qed
  ultimately show ?thesis by blast
qed

theorem calculate_transparency_total_witness:
  "(\<exists>res. calculate_transparency 255 128 128 = Inr res)
     \<and> (\<exists>ratio. int_truediv 127 255 = Inr ratio \<and> 0 < ratio)"
  using calculate_transparency_total [of 255 128 128] by simp

lemma EPSILON_HALF_bounds: "0 < EPSILON_HALF" "EPSILON_HALF < 1 / 2"
  by (simp_all add: EPSILON_HALF_val)

lemma nearest_of_close:
  fixes alpha v :: int and q :: rat
  assumes a: "1 \<le> alpha" "alpha \<le> 255" and v: "255 - alpha \<le> v" "v \<le> 255"
    and q: "\<bar>q - exact_recovered v alpha\<bar> \<le> 1 / 2 ^ 17"
  shows "\<bar>of_int (round_half_up q) - exact_recovered v alpha\<bar> \<le> 1 / 2"
    and "\<not> is_tie (exact_recovered v alpha)
           \<Longrightarrow> round_half_up q = round_half_up (exact_recovered v alpha)"
proof -
  define j where "j = v - 255 + alpha"
  define A :: rat where "A = of_int alpha"
  define x :: rat where "x = exact_recovered v alpha"
  have A: "1 \<le> A" "A \<le> 255" using a by (simp_all add: A_def)
  have j: "0 \<le> j" using v by (simp add: j_def)
  have xe: "x = 255 * of_int j / A"
    using a by (simp add: x_def exact_recovered_eq j_def A_def)
  have "\<bar>q - x\<bar> \<le> 1 / 131072" using q by (simp add: x_def)
  then have qlo: "x - 1 / 131072 \<le> q" and qhi: "q \<le> x + 1 / 131072" by linarith+
  define m where "m = 510 * j + alpha"
  define k where "k = m div (2 * alpha)"
  define rem where "rem = m mod (2 * alpha)"
  have m: "m = 2 * alpha * k + rem" by (simp add: k_def rem_def)
  have rem: "0 \<le> rem" "rem < 2 * alpha" using a by (simp_all add: rem_def)
  have "x + 1 / 2 = of_int m / (2 * A)" using A by (simp add: xe m_def A_def field_simps)
  also have "\<dots> = of_int k + of_int rem / (2 * A)"
    using A unfolding m by (simp add: A_def field_simps)
  finally have xk: "x + 1 / 2 = of_int k + of_int rem / (2 * A)" .
  have *: "\<bar>of_int (round_half_up q) - x\<bar> \<le> 1 / 2
         \<and> (\<not> is_tie x \<longrightarrow> round_half_up q = round_half_up x)"
  proof (cases "rem = 0")
    case False
    with rem have "1 \<le> rem" "rem \<le> 2 * alpha - 1" by simp_all
    then have "(of_int 1 :: rat) \<le> of_int rem" "(of_int rem :: rat) \<le> of_int (2 * alpha - 1)"
      by (simp_all only: of_int_le_iff)
    then have rr: "1 \<le> (of_int rem :: rat)" "of_int rem \<le> 2 * A - 1" by (simp_all add: A_def)
    have "1 / 510 \<le> 1 / (2 * A)" using A by (simp add: field_simps)
    also have "\<dots> \<le> of_int rem / (2 * A)" using rr(1) A by (simp add: divide_right_mono)
    finally have lo: "1 / 510 \<le> of_int rem / (2 * A)" .
    have "of_int rem / (2 * A) \<le> (2 * A - 1) / (2 * A)"
      using rr(2) A by (simp add: divide_right_mono)
    also have "\<dots> = 1 - 1 / (2 * A)" using A by (simp add: field_simps)
    also have "\<dots> \<le> 1 - 1 / 510" using A by (simp add: field_simps)
    finally have hi: "of_int rem / (2 * A) \<le> 1 - 1 / 510" .
    have "of_int k \<le> q + 1 / 2" "q + 1 / 2 < of_int k + 1" using qlo qhi xk lo hi by linarith+
    then have fq: "\<lfloor>q + 1 / 2\<rfloor> = k" by (intro floor_unique)
    have "of_int k \<le> x + 1 / 2" "x + 1 / 2 < of_int k + 1" using xk lo hi by linarith+
    then have fx: "\<lfloor>x + 1 / 2\<rfloor> = k" by (intro floor_unique)
    have "\<bar>of_int k - x\<bar> \<le> 1 / 2" using xk lo hi by linarith
    then show ?thesis by (simp add: round_half_up_def fq fx)
  next
    case True
    then have xK: "x = of_int (k - 1) + 1 / 2" using xk by simp
    have "of_int (k - 1) \<le> x" "x < of_int (k - 1) + 1" unfolding xK by simp_all
    then have "\<lfloor>x\<rfloor> = k - 1" by (intro floor_unique)
    with xK have tie: "is_tie x" by (simp add: is_tie_def)
    have "of_int k - 1 \<le> q + 1 / 2" "q + 1 / 2 < of_int k + 1"
      using qlo qhi unfolding xK by simp_all
    then have "of_int (k - 1) \<le> q + 1 / 2" "q + 1 / 2 < of_int (k + 1)" by simp_all
    then have "k - 1 \<le> \<lfloor>q + 1 / 2\<rfloor>" "\<lfloor>q + 1 / 2\<rfloor> < k + 1"
      by (simp_all only: le_floor_iff floor_less_iff)
    then have "\<lfloor>q + 1 / 2\<rfloor> = k - 1 \<or> \<lfloor>q + 1 / 2\<rfloor> = k" by linarith
    then have "\<bar>of_int \<lfloor>q + 1 / 2\<rfloor> - x\<bar> \<le> 1 / 2" unfolding xK by auto
    with tie show ?thesis by (simp add: round_half_up_def)
  qed
  show "\<bar>of_int (round_half_up q) - exact_recovered v alpha\<bar> \<le> 1 / 2"
    using * by (simp add: x_def)
  show "round_half_up q = round_half_up (exact_recovered v alpha)"
    if "\<not> is_tie (exact_recovered v alpha)"
    using * that by (simp add: x_def)
qed

lemma unblend_nearest:
  fixes r g b alpha :: int
  assumes "0 \<le> r" "r \<le> 255" "0 \<le> g" "g \<le> 255" "0 \<le> b" "b \<le> 255"
    and "alpha = 255 - min r (min g b)" and "0 < alpha"
  shows "\<exists>ratio qr qg qb.
           int_truediv alpha 255 = Inr ratio
         \<and> recovered_value r ratio = Inr qr
         \<and> recovered_value g ratio = Inr qg
         \<and> recovered_value b ratio = Inr qb
         \<and> calculate_transparency r g b
             = Inr (round_half_up qr, round_half_up qg, round_half_up qb, alpha)
         \<and> \<bar>qr - exact_recovered r alpha\<bar> \<le> 1 / 2 ^ 17
         \<and> \<bar>qg - exact_recovered g alpha\<bar> \<le> 1 / 2 ^ 17
         \<and> \<bar>qb - exact_recovered b alpha\<bar> \<le> 1 / 2 ^ 17
         \<and> \<bar>of_int (round_half_up qr) - exact_recovered r alpha\<bar> \<le> 1 / 2
         \<and> \<bar>of_int (round_half_up qg) - exact_recovered g alpha\<bar> \<le> 1 / 2
         \<and> \<bar>of_int (round_half_up qb) - exact_recovered b alpha\<bar> \<le> 1 / 2
         \<and> (\<not> is_tie (exact_recovered r alpha)
              \<longrightarrow> round_half_up qr = round_half_up (exact_recovered r alpha))
         \<and> (\<not> is_tie (exact_recovered g alpha)
              \<longrightarrow> round_half_up qg = round_half_up (exact_recovered g alpha))
         \<and> (\<not> is_tie (exact_recovered b alpha)
              \<longrightarrow> round_half_up qb = round_half_up (exact_recovered b alpha))
         \<and> 0 < EPSILON_HALF \<and> EPSILON_HALF < 1 / 2"
proof -
  have nz: "alpha \<noteq> 0" using assms(8) by simp
  have a: "1 \<le> alpha" "alpha \<le> 255" using assms by linarith+
  have vr: "255 - alpha \<le> r" and vg: "255 - alpha \<le> g" and vb: "255 - alpha \<le> b"
    using assms(7) by linarith+
  from unblend_main [OF assms(1-7) nz] obtain qr qg qb where
    q: "recovered_value r (fl (of_int alpha / 255)) = Inr qr"
       "recovered_value g (fl (of_int alpha / 255)) = Inr qg"
       "recovered_value b (fl (of_int alpha / 255)) = Inr qb"
    and c: "calculate_transparency r g b
             = Inr (\<lfloor>qr + 1 / 2\<rfloor>, \<lfloor>qg + 1 / 2\<rfloor>, \<lfloor>qb + 1 / 2\<rfloor>, alpha)"
    and n: "\<bar>qr - exact_recovered r alpha\<bar> \<le> 1 / 2 ^ 17"
       "\<bar>qg - exact_recovered g alpha\<bar> \<le> 1 / 2 ^ 17"
       "\<bar>qb - exact_recovered b alpha\<bar> \<le> 1 / 2 ^ 17" by blast
  have c': "calculate_transparency r g b
             = Inr (round_half_up qr, round_half_up qg, round_half_up qb, alpha)"
    using c by (simp add: round_half_up_def)
  note nr = nearest_of_close [OF a vr assms(2) n(1)]
  note ng = nearest_of_close [OF a vg assms(4) n(2)]
  note nb = nearest_of_close [OF a vb assms(6) n(3)]
  from int_truediv_255(1) [OF a] q c' n nr(1) ng(1) nb(1) nr(2) ng(2) nb(2) EPSILON_HALF_bounds
  show ?thesis by blast
qed

lemma example_floors:
  "\<lfloor>(7650 :: rat) / 41\<rfloor> = 186" "\<lfloor>(2550 :: rat) / 41\<rfloor> = 62"
  "\<lfloor>(15341 :: rat) / 82\<rfloor> = 187" "\<lfloor>(5141 :: rat) / 82\<rfloor> = 62" "\<lfloor>(1 :: rat) / 2\<rfloor> = 0"
  by (rule floor_unique; simp)+

lemma example_exact:
  "exact_recovered 200 205 = 7650 / 41" "exact_recovered 100 205 = 2550 / 41"
  "exact_recovered 50 205 = 0"
  "\<not> is_tie (exact_recovered 200 205)" "\<not> is_tie (exact_recovered 100 205)"
  "\<not> is_tie (exact_recovered 50 205)"
  "round_half_up (exact_recovered 200 205) = 187"
  "round_half_up (exact_recovered 100 205) = 62" "round_half_up (exact_recovered 50 205) = 0"
proof -
  show e: "exact_recovered 200 205 = 7650 / 41" "exact_recovered 100 205 = 2550 / 41"
    "exact_recovered 50 205 = 0" by (simp_all add: exact_recovered_def)
  show "\<not> is_tie (exact_recovered 200 205)" "\<not> is_tie (exact_recovered 100 205)"
    "\<not> is_tie (exact_recovered 50 205)"
    unfolding e by (simp_all add: is_tie_def example_floors)
  show "round_half_up (exact_recovered 200 205) = 187"
    "round_half_up (exact_recovered 100 205) = 62" "round_half_up (exact_recovered 50 205) = 0"
    unfolding e by (simp_all add: round_half_up_def example_floors)
qed

lemma unblend_200_100_50: "calculate_transparency 200 100 50 = Inr (187, 62, 0, 205)"
proof -
  from unblend_nearest [of 200 100 50 205] obtain qr qg qb where
    c: "calculate_transparency 200 100 50
          = Inr (round_half_up qr, round_half_up qg, round_half_up qb, 205)"
    and t: "\<not> is_tie (exact_recovered 200 205)
              \<longrightarrow> round_half_up qr = round_half_up (exact_recovered 200 205)"
      "\<not> is_tie (exact_recovered 100 205)
              \<longrightarrow> round_half_up qg = round_half_up (exact_recovered 100 205)"
      "\<not> is_tie (exact_recovered 50 205)
              \<longrightarrow> round_half_up qb = round_half_up (exact_recovered 50 205)"
    by auto
  have "round_half_up qr = 187" "round_half_up qg = 62" "round_half_up qb = 0"
    using t example_exact(4-9) by simp_all
  with c show ?thesis by simp
qed

text \<open>
  Claim C2, as the specification states it: for every input in \<open>[0, 255]\<^sup>3\<close> with
  \<open>alpha = 255 - min(r, g, b) > 0\<close>, each output channel is the recovered value
  \<open>(v - (1 - alpha / 255) \<cdot> 255) / (alpha / 255)\<close> rounded to the nearest integer with ties going
  up. It fails at the input \<open>(192, 185, 255)\<close>: alpha is 70, the recovered value of the red
  channel is \<open>51/2\<close>, rounding it half up gives 26, and the function returns 25.
\<close>

theorem round_half_up_fails_at_exact_tie:
  "calculate_transparency 192 185 255 = Inr (25, 0, 255, 70)
   \<and> 255 - min 192 (min 185 255) = (70 :: int)
   \<and> exact_recovered 192 70 = 51 / 2
   \<and> round_half_up (exact_recovered 192 70) = 26
   \<and> calculate_transparency 192 185 255
       \<noteq> Inr (round_half_up (exact_recovered 192 70), round_half_up (exact_recovered 185 70),
               round_half_up (exact_recovered 255 70), 70)"
  using exact_tie_rounds_down by simp

text \<open>
  Claim C2, amended. For every input in \<open>[0, 255]\<^sup>3\<close> with \<open>alpha = 255 - min(r, g, b) > 0\<close>,
  each output channel is an integer nearest to the recovered value
  \<open>x = (v - (1 - alpha / 255) \<cdot> 255) / (alpha / 255)\<close>: it differs from \<open>x\<close> by at most \<open>1/2\<close>, and
  it is \<open>x\<close> rounded half up whenever \<open>x\<close> is not exactly halfway between two integers. The
  channel is computed as the binary64 value \<open>q\<close> of that expression, which lies within
  \<open>2\<^sup>-\<^sup>1\<^sup>7\<close> of \<open>x\<close>, rounded half up: \<^verbatim>\<open>EPSILON_HALF\<close>, a constant strictly between 0 and
  \<open>1/2\<close>, is added and the sum truncated toward zero (\<open>recover_channel\<close>), which on every
  such \<open>q\<close> gives \<open>\<lfloor>q + 1/2\<rfloor>\<close>. Nothing clamps the result.
\<close>

theorem channels_nearest_integer:
  fixes r g b alpha :: int
  assumes "0 \<le> r" "r \<le> 255" "0 \<le> g" "g \<le> 255" "0 \<le> b" "b \<le> 255"
    and "alpha = 255 - min r (min g b)" and "0 < alpha"
  shows "\<exists>ratio qr qg qb.
           int_truediv alpha 255 = Inr ratio
         \<and> recovered_value r ratio = Inr qr
         \<and> recovered_value g ratio = Inr qg
         \<and> recovered_value b ratio = Inr qb
         \<and> calculate_transparency r g b
             = Inr (round_half_up qr, round_half_up qg, round_half_up qb, alpha)
         \<and> \<bar>qr - exact_recovered r alpha\<bar> \<le> 1 / 2 ^ 17
         \<and> \<bar>qg - exact_recovered g alpha\<bar> \<le> 1 / 2 ^ 17
         \<and> \<bar>qb - exact_recovered b alpha\<bar> \<le> 1 / 2 ^ 17
         \<and> \<bar>of_int (round_half_up qr) - exact_recovered r alpha\<bar> \<le> 1 / 2
         \<and> \<bar>of_int (round_half_up qg) - exact_recovered g alpha\<bar> \<le> 1 / 2
         \<and> \<bar>of_int (round_half_up qb) - exact_recovered b alpha\<bar> \<le> 1 / 2
         \<and> (\<not> is_tie (exact_recovered r alpha)
              \<longrightarrow> round_half_up qr = round_half_up (exact_recovered r alpha))
         \<and> (\<not> is_tie (exact_recovered g alpha)
              \<longrightarrow> round_half_up qg = round_half_up (exact_recovered g alpha))
         \<and> (\<not> is_tie (exact_recovered b alpha)
              \<longrightarrow> round_half_up qb = round_half_up (exact_recovered b alpha))
         \<and> 0 < EPSILON_HALF \<and> EPSILON_HALF < 1 / 2"
  using assms by (rule unblend_nearest)

theorem channels_nearest_integer_witness:
  "\<not> is_tie (exact_recovered 200 205) \<and> \<not> is_tie (exact_recovered 100 205)
   \<and> \<not> is_tie (exact_recovered 50 205)
   \<and> calculate_transparency 200 100 50
       = Inr (round_half_up (exact_recovered 200 205), round_half_up (exact_recovered 100 205),
              round_half_up (exact_recovered 50 205), 205)
   \<and> round_half_up (exact_recovered 200 205) = 187
   \<and> round_half_up (exact_recovered 100 205) = 62
   \<and> round_half_up (exact_recovered 50 205) = 0"
proof -
  note t = example_exact(4-6) and v = example_exact(7-9)
  from channels_nearest_integer [of 200 100 50 205] obtain qr qg qb where
    c: "calculate_transparency 200 100 50
          = Inr (round_half_up qr, round_half_up qg, round_half_up qb, 205)"
    and i: "\<not> is_tie (exact_recovered 200 205)
              \<longrightarrow> round_half_up qr = round_half_up (exact_recovered 200 205)"
      "\<not> is_tie (exact_recovered 100 205)
              \<longrightarrow> round_half_up qg = round_half_up (exact_recovered 100 205)"
      "\<not> is_tie (exact_recovered 50 205)
              \<longrightarrow> round_half_up qb = round_half_up (exact_recovered 50 205)"
    by auto
  from i t have "round_half_up qr = round_half_up (exact_recovered 200 205)"
    "round_half_up qg = round_half_up (exact_recovered 100 205)"
    "round_half_up qb = round_half_up (exact_recovered 50 205)" by blast+
  with c have "calculate_transparency 200 100 50
          = Inr (round_half_up (exact_recovered 200 205), round_half_up (exact_recovered 100 205),
                 round_half_up (exact_recovered 50 205), 205)" by simp
  with t v show ?thesis by (simp only: simp_thms)
qed

lemma near_range:
  fixes n :: int and x :: rat
  assumes "\<bar>of_int n - x\<bar> \<le> 1 / 2 + 1 / 2 ^ 17" and "0 \<le> x" and "x \<le> 255"
  shows "0 \<le> n" and "n \<le> 255"
proof -
  have "(1::rat) / 2 + 1 / 2 ^ 17 = 65537 / 131072" by simp
  with assms(1) have "\<bar>of_int n - x\<bar> \<le> 65537 / 131072" by (simp only:)
  then have "- 1 < (of_int n :: rat)" "(of_int n :: rat) < 256"
    using assms(2,3) by linarith+
  then have "(of_int (- 1) :: rat) < of_int n" "(of_int n :: rat) < of_int 256" by simp_all
  then have "- 1 < n" "n < 256" by (simp_all only: of_int_less_iff)
  then show "0 \<le> n" and "n \<le> 255" by linarith+
qed

lemma unblend_components:
  fixes r g b alpha :: int
  assumes r: "0 \<le> r" "r \<le> 255" and g: "0 \<le> g" "g \<le> 255" and b: "0 \<le> b" "b \<le> 255"
    and al: "alpha = 255 - min r (min g b)" and nz: "alpha \<noteq> 0"
  obtains R G B where "calculate_transparency r g b = Inr (R, G, B, alpha)"
    and "0 \<le> R" "R \<le> 255" "0 \<le> G" "G \<le> 255" "0 \<le> B" "B \<le> 255"
    and "r = 255 - alpha \<longrightarrow> R = 0" "g = 255 - alpha \<longrightarrow> G = 0" "b = 255 - alpha \<longrightarrow> B = 0"
proof -
  have a: "1 \<le> alpha" using r g b al nz by linarith
  have vr: "255 - alpha \<le> r" and vg: "255 - alpha \<le> g" and vb: "255 - alpha \<le> b"
    using al by linarith+
  from unblend_near [OF r g b al nz] obtain R G B where
    c: "calculate_transparency r g b = Inr (R, G, B, alpha)"
    and n: "\<bar>of_int R - exact_recovered r alpha\<bar> \<le> 1 / 2 + 1 / 2 ^ 17"
      "\<bar>of_int G - exact_recovered g alpha\<bar> \<le> 1 / 2 + 1 / 2 ^ 17"
      "\<bar>of_int B - exact_recovered b alpha\<bar> \<le> 1 / 2 + 1 / 2 ^ 17" by auto
  note xr = exact_recovered_range [OF a vr r(2)]
  note xg = exact_recovered_range [OF a vg g(2)]
  note xb = exact_recovered_range [OF a vb b(2)]
  have zero: "n = 0" if "\<bar>of_int n - exact_recovered v alpha\<bar> \<le> 1 / 2 + 1 / 2 ^ 17"
    and "v = 255 - alpha" for n v :: int
  proof -
    have "\<bar>(of_int n :: rat) - of_int 0\<bar> \<le> 1 / 2 + 1 / 2 ^ 17"
      using that exact_recovered_min [OF nz] by simp
    then show ?thesis by (rule int_near_unique)
  qed
  show ?thesis
  proof (rule that [OF c])
    show "0 \<le> R" "R \<le> 255" using near_range [OF n(1) xr] by simp_all
    show "0 \<le> G" "G \<le> 255" using near_range [OF n(2) xg] by simp_all
    show "0 \<le> B" "B \<le> 255" using near_range [OF n(3) xb] by simp_all
    show "r = 255 - alpha \<longrightarrow> R = 0" using zero [OF n(1)] by blast
    show "g = 255 - alpha \<longrightarrow> G = 0" using zero [OF n(2)] by blast
    show "b = 255 - alpha \<longrightarrow> B = 0" using zero [OF n(3)] by blast
  qed
qed

text \<open>
  Claim C9. For every input in \<open>[0, 255]\<^sup>3\<close> the output \<open>(R, G, B, A)\<close> has
  \<open>min(R, G, B) = 0\<close>: the channel that attains \<open>min(r, g, b)\<close> is recovered as 0, no channel
  is recovered as a negative number, and the zero-alpha case returns \<open>(0, 0, 0, 0)\<close>.
\<close>

theorem some_recovered_channel_is_zero:
  fixes r g b :: int
  assumes "0 \<le> r" "r \<le> 255" "0 \<le> g" "g \<le> 255" "0 \<le> b" "b \<le> 255"
  shows "\<exists>R G B A. calculate_transparency r g b = Inr (R, G, B, A) \<and> min R (min G B) = 0"
proof (cases "255 - min r (min g b) = 0")
  case True
  then show ?thesis by (simp add: calculate_transparency_def)
next
  case False
  define alpha where "alpha = 255 - min r (min g b)"
  from unblend_components [OF assms alpha_def False [folded alpha_def]] obtain R G B where
    c: "calculate_transparency r g b = Inr (R, G, B, alpha)"
    and p: "0 \<le> R" "0 \<le> G" "0 \<le> B"
    and z: "r = 255 - alpha \<longrightarrow> R = 0" "g = 255 - alpha \<longrightarrow> G = 0" "b = 255 - alpha \<longrightarrow> B = 0"
    by blast
  have "r = 255 - alpha \<or> g = 255 - alpha \<or> b = 255 - alpha"
    unfolding alpha_def by linarith
  with z have "R = 0 \<or> G = 0 \<or> B = 0" by blast
  with p have "min R (min G B) = 0" by linarith
  with c show ?thesis by blast
qed

theorem some_recovered_channel_is_zero_witness:
  "\<exists>R G B A. calculate_transparency 255 128 128 = Inr (R, G, B, A) \<and> min R (min G B) = 0"
  using some_recovered_channel_is_zero [of 255 128 128] by simp

lemma exact_channel_range:
  fixes alpha v :: int
  assumes "1 \<le> alpha" and "255 - alpha \<le> v" and "v \<le> 255"
  shows "0 \<le> int_of_float (exact_recovered v alpha + EPSILON_HALF)"
    and "int_of_float (exact_recovered v alpha + EPSILON_HALF) \<le> 255"
proof -
  define s where "s = exact_recovered v alpha + EPSILON_HALF"
  from exact_recovered_range [OF assms] EPSILON_HALF_bounds
  have s: "0 \<le> s" "s < 256" unfolding s_def by linarith+
  then have i: "int_of_float s = \<lfloor>s\<rfloor>" by (simp add: int_of_float_def)
  have "0 \<le> \<lfloor>s\<rfloor>" using s(1) by simp
  moreover have "\<lfloor>s\<rfloor> < 256" using s(2) by (simp add: floor_less_iff)
  ultimately show "0 \<le> int_of_float (exact_recovered v alpha + EPSILON_HALF)"
    and "int_of_float (exact_recovered v alpha + EPSILON_HALF) \<le> 255"
    unfolding s_def [symmetric] i by linarith+
qed

text \<open>
  Claim C10. For every input in \<open>[0, 255]\<^sup>3\<close> every component of the output lies in
  \<open>[0, 255]\<close> although nothing clamps it: when the recovery formula is evaluated in exact
  rational arithmetic (\<open>calculate_transparency_exact\<close>), and also in the binary64 arithmetic
  of the source. The exact recovered value of each channel lies in \<open>[0, 255]\<close> because the
  channel is at least \<open>min(r, g, b)\<close>.
\<close>

theorem components_in_byte_range:
  fixes r g b :: int
  assumes "0 \<le> r" "r \<le> 255" "0 \<le> g" "g \<le> 255" "0 \<le> b" "b \<le> 255"
  shows "(\<exists>R G B A. calculate_transparency_exact r g b = Inr (R, G, B, A)
            \<and> 0 \<le> R \<and> R \<le> 255 \<and> 0 \<le> G \<and> G \<le> 255 \<and> 0 \<le> B \<and> B \<le> 255
            \<and> 0 \<le> A \<and> A \<le> 255)
       \<and> (\<exists>R G B A. calculate_transparency r g b = Inr (R, G, B, A)
            \<and> 0 \<le> R \<and> R \<le> 255 \<and> 0 \<le> G \<and> G \<le> 255 \<and> 0 \<le> B \<and> B \<le> 255
            \<and> 0 \<le> A \<and> A \<le> 255)
       \<and> (255 - min r (min g b) \<noteq> 0 \<longrightarrow>
            0 \<le> exact_recovered r (255 - min r (min g b))
          \<and> exact_recovered r (255 - min r (min g b)) \<le> 255
          \<and> 0 \<le> exact_recovered g (255 - min r (min g b))
          \<and> exact_recovered g (255 - min r (min g b)) \<le> 255
          \<and> 0 \<le> exact_recovered b (255 - min r (min g b))
          \<and> exact_recovered b (255 - min r (min g b)) \<le> 255)"
proof (cases "255 - min r (min g b) = 0")
  case True
  then show ?thesis by (simp add: calculate_transparency_def calculate_transparency_exact_def)
next
  case False
  define alpha where "alpha = 255 - min r (min g b)"
  have nz: "alpha \<noteq> 0" using False by (simp add: alpha_def)
  have a: "1 \<le> alpha" "0 \<le> alpha" "alpha \<le> 255" using assms nz unfolding alpha_def by linarith+
  have vr: "255 - alpha \<le> r" and vg: "255 - alpha \<le> g" and vb: "255 - alpha \<le> b"
    unfolding alpha_def by linarith+
  have A0: "(of_int alpha :: rat) \<noteq> 0" using nz by simp
  have "calculate_transparency_exact r g b
          = Inr (int_of_float (exact_recovered r alpha + EPSILON_HALF),
                 int_of_float (exact_recovered g alpha + EPSILON_HALF),
                 int_of_float (exact_recovered b alpha + EPSILON_HALF), alpha)"
    using nz A0 by (simp add: calculate_transparency_exact_def alpha_def [symmetric])
  with exact_channel_range [OF a(1) vr assms(2)] exact_channel_range [OF a(1) vg assms(4)]
    exact_channel_range [OF a(1) vb assms(6)] a(2,3)
  have 1: "\<exists>R G B A. calculate_transparency_exact r g b = Inr (R, G, B, A)
            \<and> 0 \<le> R \<and> R \<le> 255 \<and> 0 \<le> G \<and> G \<le> 255 \<and> 0 \<le> B \<and> B \<le> 255
            \<and> 0 \<le> A \<and> A \<le> 255" by blast
  from unblend_components [OF assms alpha_def nz] a(2,3)
  have 2: "\<exists>R G B A. calculate_transparency r g b = Inr (R, G, B, A)
            \<and> 0 \<le> R \<and> R \<le> 255 \<and> 0 \<le> G \<and> G \<le> 255 \<and> 0 \<le> B \<and> B \<le> 255
            \<and> 0 \<le> A \<and> A \<le> 255" by metis
  from exact_recovered_range [OF a(1) vr assms(2)] exact_recovered_range [OF a(1) vg assms(4)]
    exact_recovered_range [OF a(1) vb assms(6)] 1 2
  show ?thesis unfolding alpha_def [symmetric] by blast
qed

theorem components_in_byte_range_witness:
  "(\<exists>R G B A. calculate_transparency_exact 255 128 128 = Inr (R, G, B, A)
      \<and> 0 \<le> R \<and> R \<le> 255 \<and> 0 \<le> G \<and> G \<le> 255 \<and> 0 \<le> B \<and> B \<le> 255
      \<and> 0 \<le> A \<and> A \<le> 255)
   \<and> (\<exists>R G B A. calculate_transparency 255 128 128 = Inr (R, G, B, A)
      \<and> 0 \<le> R \<and> R \<le> 255 \<and> 0 \<le> G \<and> G \<le> 255 \<and> 0 \<le> B \<and> B \<le> 255
      \<and> 0 \<le> A \<and> A \<le> 255)
   \<and> 0 \<le> exact_recovered 255 127 \<and> exact_recovered 255 127 \<le> 255
   \<and> 0 \<le> exact_recovered 128 127 \<and> exact_recovered 128 127 \<le> 255"
  using components_in_byte_range [of 255 128 128] by simp

lemma composite_error:
  fixes R v alpha :: int
  assumes "alpha \<noteq> 0"
  shows "composite_over_white R alpha - of_int v
           = (of_int R - exact_recovered v alpha) * (of_int alpha / 255)"
proof -
  have A0: "(of_int alpha :: rat) \<noteq> 0" using assms by simp
  have "exact_recovered v alpha * (of_int alpha / 255) = of_int v - 255 + of_int alpha"
    using A0 by (simp add: exact_recovered_eq [OF assms])
  then show ?thesis by (simp add: composite_over_white_def algebra_simps)
qed

lemma recomposite_near:
  fixes R v alpha :: int
  assumes a: "1 \<le> alpha" "alpha \<le> 255"
    and n: "\<bar>of_int R - exact_recovered v alpha\<bar> \<le> 1 / 2 + 1 / 2 ^ 17"
  shows "\<bar>round_half_up (composite_over_white R alpha) - v\<bar> \<le> 1"
proof -
  define w :: rat where "w = of_int alpha / 255"
  define e :: rat where "e = of_int R - exact_recovered v alpha"
  define c where "c = composite_over_white R alpha"
  have w: "0 \<le> w" "w \<le> 1" using a by (simp_all add: w_def)
  have "(1::rat) / 2 + 1 / 2 ^ 17 = 65537 / 131072" by simp
  with n have e: "\<bar>e\<bar> \<le> 65537 / 131072" unfolding e_def by (simp only:)
  have "\<bar>e * w\<bar> \<le> 65537 / 131072 * 1"
    unfolding abs_mult using e w by (intro mult_mono) simp_all
  moreover have "c - of_int v = e * w"
    unfolding c_def e_def w_def using a by (intro composite_error) simp
  ultimately have cv: "\<bar>c - of_int v\<bar> \<le> 65537 / 131072" by simp
  have "of_int v - 1 \<le> c + 1 / 2" "c + 1 / 2 < of_int v + 2" using cv by linarith+
  then have "of_int (v - 1) \<le> c + 1 / 2" "c + 1 / 2 < of_int (v + 2)" by simp_all
  then have "v - 1 \<le> \<lfloor>c + 1 / 2\<rfloor>" "\<lfloor>c + 1 / 2\<rfloor> < v + 2"
    by (simp_all only: le_floor_iff floor_less_iff)
  then show ?thesis unfolding round_half_up_def c_def [symmetric] by linarith
qed

text \<open>
  Claim C4. For every input in \<open>[0, 255]\<^sup>3\<close> whose output \<open>(R, G, B, A)\<close> has \<open>A > 0\<close>,
  compositing each recovered channel over white at opacity \<open>A / 255\<close> and rounding gives the
  input channel back to within 1.
\<close>

theorem recomposite_within_one:
  fixes r g b R G B A :: int
  assumes "0 \<le> r" "r \<le> 255" "0 \<le> g" "g \<le> 255" "0 \<le> b" "b \<le> 255"
    and "calculate_transparency r g b = Inr (R, G, B, A)" and "0 < A"
  shows "\<bar>round_half_up (composite_over_white R A) - r\<bar> \<le> 1
       \<and> \<bar>round_half_up (composite_over_white G A) - g\<bar> \<le> 1
       \<and> \<bar>round_half_up (composite_over_white B A) - b\<bar> \<le> 1"
proof -
  from unblend_shape [OF assms(1-6)] assms(7)
  have A: "A = 255 - min r (min g b)" by auto
  have nz: "A \<noteq> 0" using assms(8) by simp
  have a: "1 \<le> A" "A \<le> 255" using assms(8) assms(1-6) unfolding A by linarith+
  from unblend_near [OF assms(1-6) A nz] assms(7)
  have "\<bar>of_int R - exact_recovered r A\<bar> \<le> 1 / 2 + 1 / 2 ^ 17"
    "\<bar>of_int G - exact_recovered g A\<bar> \<le> 1 / 2 + 1 / 2 ^ 17"
    "\<bar>of_int B - exact_recovered b A\<bar> \<le> 1 / 2 + 1 / 2 ^ 17" by auto
  then show ?thesis using recomposite_near [OF a] by blast
qed

theorem recomposite_within_one_witness:
  "calculate_transparency 10 0 200 = Inr (10, 0, 200, 255) \<and> (0::int) < 255
   \<and> \<bar>round_half_up (composite_over_white 10 255) - 10\<bar> \<le> 1
   \<and> \<bar>round_half_up (composite_over_white 0 255) - 0\<bar> \<le> 1
   \<and> \<bar>round_half_up (composite_over_white 200 255) - 200\<bar> \<le> 1"
proof -
  have c: "calculate_transparency 10 0 200 = Inr (10, 0, 200, 255)"
    by (rule unblend_opaque) simp_all
  from recomposite_within_one [of 10 0 200 10 0 200 255, OF _ _ _ _ _ _ c] c
  show ?thesis by simp
qed

section \<open>The specification's claims about the image pipeline\<close>

lemma collect_total:
  assumes "\<And>x. \<exists>y. f x = Inr y"
  shows "\<exists>ys. collect f xs = Inr ys \<and> length ys = length xs
            \<and> (\<forall>i < length xs. f (xs ! i) = Inr (ys ! i))"
proof (induction xs)
  case Nil
  show ?case by simp
next
  case (Cons x xs)
  from assms obtain y where y: "f x = Inr y" by blast
  from Cons.IH obtain ys where ys: "collect f xs = Inr ys" "length ys = length xs"
    "\<forall>i < length xs. f (xs ! i) = Inr (ys ! i)" by blast
  have "collect f (x # xs) = Inr (y # ys)" by (simp add: y ys(1) rbind_def)
  moreover have "\<forall>i < length (x # xs). f ((x # xs) ! i) = Inr ((y # ys) ! i)"
    using y ys(3) by (auto simp add: nth_Cons split: nat.splits)
  ultimately show ?case using ys(2) by auto
qed

lemma unblend_byte_range:
  fixes r g b :: int
  assumes "0 \<le> r" "r \<le> 255" "0 \<le> g" "g \<le> 255" "0 \<le> b" "b \<le> 255"
  shows "\<exists>R G B A. calculate_transparency r g b = Inr (R, G, B, A)
           \<and> 0 \<le> R \<and> R \<le> 255 \<and> 0 \<le> G \<and> G \<le> 255 \<and> 0 \<le> B \<and> B \<le> 255
           \<and> 0 \<le> A \<and> A \<le> 255"
proof (cases "255 - min r (min g b) = 0")
  case True
  then show ?thesis by (simp add: calculate_transparency_def)
next
  case False
  define alpha where "alpha = 255 - min r (min g b)"
  have a: "0 \<le> alpha" "alpha \<le> 255" using assms unfolding alpha_def by linarith+
  from unblend_components [OF assms alpha_def False [folded alpha_def]] a
  show ?thesis by metis
qed

lemma clip_pixel_id:
  assumes "0 \<le> R" "R \<le> 255" "0 \<le> G" "G \<le> 255" "0 \<le> B" "B \<le> 255" "0 \<le> A" "A \<le> 255"
  shows "clip_pixel (R, G, B, A) = (R, G, B, A)"
  using assms by (simp add: clip_pixel_def clip8_def)

lemma unblend_byte_pixel:
  fixes r g b :: "8 word"
  shows "\<exists>q. calculate_transparency (uint r) (uint g) (uint b) = Inr q \<and> clip_pixel q = q"
proof -
  have "uint r < 2 ^ 8" "uint g < 2 ^ 8" "uint b < 2 ^ 8"
    using uint_lt2p [where 'a = 8] by simp_all
  then have "uint r \<le> 255" "uint g \<le> 255" "uint b \<le> 255" by simp_all
  from unblend_byte_range [OF uint_ge_0 this(1) uint_ge_0 this(2) uint_ge_0 this(3)]
  obtain R G B A where "calculate_transparency (uint r) (uint g) (uint b) = Inr (R, G, B, A)"
    and "0 \<le> R" "R \<le> 255" "0 \<le> G" "G \<le> 255" "0 \<le> B" "B \<le> 255" "0 \<le> A" "A \<le> 255"
    by blast
  then show ?thesis using clip_pixel_id by blast
qed

lemma convert_image_result:
  fixes img :: "('p, 'i) image"
  assumes "valid_image (convert img ''RGB'')"
    and "size_wh (convert img ''RGB'') = size_wh img"
  obtains pixels where "length pixels = length (getdata (convert img ''RGB''))"
    and "\<forall>i < length (getdata (convert img ''RGB'')). \<forall>r g b.
            getdata (convert img ''RGB'') ! i = (r, g, b)
              \<longrightarrow> calculate_transparency (uint r) (uint g) (uint b) = Inr (pixels ! i)"
    and "snd (convert_image_to_transparent convert img)
           = Inr \<lparr>mode = ''RGBA'', info = Map.empty, size_wh = size_wh img, getdata = pixels\<rparr>"
proof -
  define f :: "rgb \<Rightarrow> error + rgba"
    where "f = (\<lambda>(r, g, b). calculate_transparency (uint r) (uint g) (uint b))"
  define xs where "xs = getdata (convert img ''RGB'')"
  have tot: "\<exists>q. f p = Inr q \<and> clip_pixel q = q" for p
    using unblend_byte_pixel by (cases p) (simp add: f_def)
  then have "\<exists>y. f x = Inr y" for x by blast
  from collect_total [of f xs, OF this] obtain pixels where
    p: "collect f xs = Inr pixels" "length pixels = length xs"
    "\<forall>i < length xs. f (xs ! i) = Inr (pixels ! i)" by blast
  have "clip_pixel q = q" if "q \<in> set pixels" for q
  proof -
    from that obtain i where i: "i < length pixels" "pixels ! i = q"
      by (auto simp add: in_set_conv_nth)
    with p(2,3) have "f (xs ! i) = Inr q" by simp
    with tot [of "xs ! i"] show ?thesis by simp
  qed
  then have clip: "map clip_pixel pixels = pixels" by (intro map_idI)
  have len: "length pixels = fst (size_wh img) * snd (size_wh img)"
    using assms p(2) by (simp add: valid_image_def xs_def)
  have 1: "\<forall>i < length xs. \<forall>r g b.
            xs ! i = (r, g, b)
              \<longrightarrow> calculate_transparency (uint r) (uint g) (uint b) = Inr (pixels ! i)"
    using p(3) by (auto simp add: f_def)
  have 2: "snd (convert_image_to_transparent convert img)
          = Inr \<lparr>mode = ''RGBA'', info = Map.empty, size_wh = size_wh img, getdata = pixels\<rparr>"
    by (simp add: convert_image_to_transparent_def Let_def xs_def [symmetric] f_def [symmetric]
        p(1) rbind_def putdata_def new_image_def len clip)
  show ?thesis using p(2) 1 2 unfolding xs_def by (rule that)
qed

text \<open>
  Claim C5. The output image has the width and height of the input image and one pixel
  for every position, and its pixel at every position is \<^verbatim>\<open>calculate_transparency\<close> applied
  to the RGB pixel of the input at the same position in row-major order: no pixel depends on
  another. What the function computes for a pixel is also what the RGBA image stores, since
  every component is a byte. The hypotheses are what Pillow guarantees of
  \<^verbatim>\<open>img.convert("RGB")\<close>: an image of the size of \<^verbatim>\<open>img\<close> with one pixel for every position.
\<close>

theorem output_grid_is_pixelwise_unblend:
  fixes img :: "('p, 'i) image"
  assumes "valid_image (convert img ''RGB'')"
    and "size_wh (convert img ''RGB'') = size_wh img"
  shows "\<exists>out. snd (convert_image_to_transparent convert img) = Inr out
          \<and> mode out = ''RGBA''
          \<and> size_wh out = size_wh img
          \<and> valid_image out
          \<and> length (getdata out) = length (getdata (convert img ''RGB''))
          \<and> (\<forall>i < length (getdata out). \<forall>r g b.
                getdata (convert img ''RGB'') ! i = (r, g, b)
                  \<longrightarrow> calculate_transparency (uint r) (uint g) (uint b)
                        = Inr (getdata out ! i))"
proof -
  from convert_image_result [of convert img, OF assms] obtain pixels where
    p: "length pixels = length (getdata (convert img ''RGB''))"
      "\<forall>i < length (getdata (convert img ''RGB'')). \<forall>r g b.
            getdata (convert img ''RGB'') ! i = (r, g, b)
              \<longrightarrow> calculate_transparency (uint r) (uint g) (uint b) = Inr (pixels ! i)"
      "snd (convert_image_to_transparent convert img)
         = Inr \<lparr>mode = ''RGBA'', info = Map.empty, size_wh = size_wh img, getdata = pixels\<rparr>"
    by blast
  have "valid_image \<lparr>mode = ''RGBA'', info = Map.empty, size_wh = size_wh img, getdata = pixels\<rparr>"
    using assms p(1) by (simp add: valid_image_def)
  with p show ?thesis by simp
qed

theorem output_grid_is_pixelwise_unblend_witness:
  "valid_image ((\<lambda>im m. im\<lparr>mode := m\<rparr>)
       \<lparr>mode = ''RGB'', info = (Map.empty :: string \<rightharpoonup> nat), size_wh = (3, 1),
        getdata = [(255, 255, 255), (0, 0, 0), (200, 100, 50) :: rgb]\<rparr> ''RGB'')
   \<and> (\<exists>out. snd (convert_image_to_transparent (\<lambda>im m. im\<lparr>mode := m\<rparr>)
                 \<lparr>mode = ''RGB'', info = (Map.empty :: string \<rightharpoonup> nat), size_wh = (3, 1),
                  getdata = [(255, 255, 255), (0, 0, 0), (200, 100, 50) :: rgb]\<rparr>) = Inr out
         \<and> mode out = ''RGBA'' \<and> size_wh out = (3, 1) \<and> valid_image out
         \<and> getdata out = [(0, 0, 0, 0), (0, 0, 0, 255), (187, 62, 0, 205)])"
proof -
  define img :: "(rgb, nat) image" where
    "img = \<lparr>mode = ''RGB'', info = Map.empty, size_wh = (3, 1),
            getdata = [(255, 255, 255), (0, 0, 0), (200, 100, 50)]\<rparr>"
  define conv :: "(rgb, nat) image \<Rightarrow> string \<Rightarrow> (rgb, nat) image"
    where "conv = (\<lambda>im m. im\<lparr>mode := m\<rparr>)"
  have v: "valid_image (conv img ''RGB'')" by (simp add: valid_image_def conv_def img_def)
  have s: "size_wh (conv img ''RGB'') = size_wh img" by (simp add: conv_def)
  have d: "getdata (conv img ''RGB'') = [(255, 255, 255), (0, 0, 0), (200, 100, 50)]"
    by (simp add: conv_def img_def)
  from output_grid_is_pixelwise_unblend [of conv img, OF v s] obtain out where
    o: "snd (convert_image_to_transparent conv img) = Inr out" "mode out = ''RGBA''"
      "size_wh out = size_wh img" "valid_image out" "length (getdata out) = 3"
    and px: "\<forall>i < length (getdata out). \<forall>r g b.
                getdata (conv img ''RGB'') ! i = (r, g, b)
                  \<longrightarrow> calculate_transparency (uint r) (uint g) (uint b)
                        = Inr (getdata out ! i)"
    unfolding d by auto
  have c0: "calculate_transparency 255 255 255 = Inr (0, 0, 0, 0)"
    by (simp add: calculate_transparency_def)
  have c1: "calculate_transparency 0 0 0 = Inr (0, 0, 0, 255)"
    by (rule unblend_opaque) simp_all
  note c2 = unblend_200_100_50
  have "getdata out ! 0 = (0, 0, 0, 0)"
    using px [rule_format, of 0 255 255 255] o(5) c0 by (simp add: d)
  moreover have "getdata out ! 1 = (0, 0, 0, 255)"
    using px [rule_format, of 1 0 0 0] o(5) c1 by (simp add: d)
  moreover have "getdata out ! Suc (Suc 0) = (187, 62, 0, 205)"
    using px [rule_format, of "Suc (Suc 0)" 200 100 50] o(5) c2 by (simp add: d)
  ultimately have "getdata out = [(0, 0, 0, 0), (0, 0, 0, 255), (187, 62, 0, 205)]"
    using o(5) by (intro nth_equalityI) (auto simp add: less_Suc_eq numeral_3_eq_3)
  with o v show ?thesis unfolding conv_def img_def by simp
qed

lemma warning_printed_iff:
  "transparency_warning \<in> set (fst (convert_image_to_transparent convert img))
     \<longleftrightarrow> mode img = ''RGBA'' \<or> mode img = ''LA''
         \<or> (mode img = ''P'' \<and> ''transparency'' \<in> dom (info img))"
  by (auto simp add: convert_image_to_transparent_def Let_def)

text \<open>
  Claim C7. The warning is to be printed if and only if the decoded image carries any
  transparency information, and the function then still builds the RGBA output from the
  RGB pixels alone. The source's docstring promises the same: the function warns if the
  image already contains transparency data. The test in the code covers mode RGBA, mode LA and
  mode P with a \<^verbatim>\<open>transparency\<close> entry in \<^verbatim>\<open>info\<close>, and nothing else. An RGB image whose
  \<^verbatim>\<open>info\<close> has a \<^verbatim>\<open>transparency\<close> entry (a PNG with a transparent colour) carries transparency
  data, and for it the function prints nothing and goes on: here the one pixel of the
  image is the transparent colour itself.
\<close>

theorem no_warning_for_rgb_with_transparent_colour:
  "info \<lparr>mode = ''RGB'', info = [''transparency'' \<mapsto> (255, 255, 255) :: rgb],
          size_wh = (1, 1), getdata = [(255, 255, 255) :: rgb]\<rparr> ''transparency''
     = Some (255, 255, 255)
   \<and> fst (convert_image_to_transparent (\<lambda>im m. im\<lparr>mode := m\<rparr>)
            \<lparr>mode = ''RGB'', info = [''transparency'' \<mapsto> (255, 255, 255) :: rgb],
             size_wh = (1, 1), getdata = [(255, 255, 255) :: rgb]\<rparr>) = []
   \<and> snd (convert_image_to_transparent (\<lambda>im m. im\<lparr>mode := m\<rparr>)
            \<lparr>mode = ''RGB'', info = [''transparency'' \<mapsto> (255, 255, 255) :: rgb],
             size_wh = (1, 1), getdata = [(255, 255, 255) :: rgb]\<rparr>)
       = Inr \<lparr>mode = ''RGBA'', info = Map.empty, size_wh = (1, 1), getdata = [(0, 0, 0, 0)]\<rparr>"
  by (simp add: convert_image_to_transparent_def Let_def calculate_transparency_def rbind_def
      putdata_def new_image_def clip_pixel_def clip8_def)

end
